theory Spec2Isabelle
  imports Main "HOL-Library.Word"
begin

section \<open>JavaScript values\<close>

text \<open>
  A JavaScript string is a sequence of 16-bit code units. Literals of the source are
  written \<open>js ''...''\<close>.
\<close>

type_synonym jsstring = "16 word list"

definition js :: "string \<Rightarrow> jsstring" where
  "js s = map (\<lambda>c. of_nat (of_char c)) s"

text \<open>
  The values \<open>normalizeXmlJs\<close> can be handed. An object is the list of its own enumerable
  string-keyed properties in the order \<open>Object.keys\<close> and \<open>Object.entries\<close> report them;
  all objects are plain data objects whose prototype is \<open>Object.prototype\<close>. The payload
  of a number is never inspected by the normalizer.
\<close>

datatype jsval =
    Undefined
  | Null
  | Bool bool
  | Num int
  | Str jsstring
  | Arr "jsval list"
  | Obj "(jsstring \<times> jsval) list"

fun array_isArray :: "jsval \<Rightarrow> bool" where
  "array_isArray (Arr xs) = True"
| "array_isArray v = False"

fun typeof :: "jsval \<Rightarrow> string" where
  "typeof Undefined = ''undefined''"
| "typeof Null = ''object''"
| "typeof (Bool b) = ''boolean''"
| "typeof (Num n) = ''number''"
| "typeof (Str s) = ''string''"
| "typeof (Arr xs) = ''object''"
| "typeof (Obj kvs) = ''object''"

fun truthy :: "jsval \<Rightarrow> bool" where
  "truthy Undefined = False"
| "truthy Null = False"
| "truthy (Bool b) = b"
| "truthy (Num n) = (n \<noteq> 0)"
| "truthy (Str s) = (s \<noteq> [])"
| "truthy (Arr xs) = True"
| "truthy (Obj kvs) = True"

text \<open>Reading a property \<open>node.k\<close> of a plain object: \<open>undefined\<close> when it is absent.\<close>

definition get_prop :: "(jsstring \<times> jsval) list \<Rightarrow> jsstring \<Rightarrow> jsval" where
  "get_prop node k = (case map_of node k of Some v \<Rightarrow> v | None \<Rightarrow> Undefined)"

subsection \<open>Property order and assignment\<close>

text \<open>
  A key is an array index when it is the canonical decimal form of an integer below
  \<open>2^32 - 1\<close>. Such keys are enumerated first, in ascending numeric order; every other
  string key follows in the order of its creation.
\<close>

definition is_digit :: "16 word \<Rightarrow> bool" where
  "is_digit c = (48 \<le> c \<and> c \<le> 57)"

definition index_value :: "jsstring \<Rightarrow> nat" where
  "index_value s = foldl (\<lambda>n c. 10 * n + (unat c - 48)) 0 s"

definition is_array_index :: "jsstring \<Rightarrow> bool" where
  "is_array_index s =
     (if s = [] then False
      else if \<not> list_all is_digit s then False
      else if hd s = 48 \<and> s \<noteq> [48] then False
      else index_value s < 4294967295)"

text \<open>The decimal digits of a number: the key of an array element, the text of a number.\<close>

fun digits_of :: "nat \<Rightarrow> jsstring" where
  "digits_of n =
     (if n < 10 then [of_nat (48 + n)]
      else digits_of (n div 10) @ [of_nat (48 + n mod 10)])"

fun insert_index :: "jsstring \<Rightarrow> jsval \<Rightarrow> (jsstring \<times> jsval) list \<Rightarrow> (jsstring \<times> jsval) list" where
  "insert_index k v [] = [(k, v)]"
| "insert_index k v ((k', v') # kvs) =
     (if is_array_index k' \<and> index_value k' \<le> index_value k
      then (k', v') # insert_index k v kvs
      else (k, v) # (k', v') # kvs)"

text \<open>
  Creating or overwriting the own data property \<open>k\<close> of an object: an existing property
  keeps its place and takes the new value; a new property is created at the place the
  enumeration order gives it.
\<close>

definition create_prop :: "(jsstring \<times> jsval) list \<Rightarrow> jsstring \<Rightarrow> jsval \<Rightarrow> (jsstring \<times> jsval) list" where
  "create_prop out k v =
     (if k \<in> set (map fst out)
        then map (\<lambda>(k', v'). if k' = k then (k', v) else (k', v')) out
      else if is_array_index k then insert_index k v out
      else out @ [(k, v)])"

text \<open>
  The assignment \<open>out[k] = v\<close> on an object that started as \<open>{}\<close>. The name \<open>__proto__\<close>
  reaches the accessor inherited from \<open>Object.prototype\<close>: no own property is created,
  and the prototype link, which no enumeration and no serialization shows, is not part
  of the model. Every other name creates or overwrites the own property.
\<close>

definition obj_set :: "(jsstring \<times> jsval) list \<Rightarrow> jsstring \<Rightarrow> jsval \<Rightarrow> (jsstring \<times> jsval) list" where
  "obj_set out k v = (if k = js ''__proto__'' then out else create_prop out k v)"

text \<open>
  \<open>Object.entries\<close> of an object or of an array (whose keys are its indices). It is only
  called behind the guard \<open>node._attributes && typeof node._attributes === 'object'\<close>,
  which lets nothing else through.
\<close>

fun object_entries :: "jsval \<Rightarrow> (jsstring \<times> jsval) list" where
  "object_entries (Obj kvs) = kvs"
| "object_entries (Arr xs) = zip (map digits_of [0..<length xs]) xs"
| "object_entries v = []"

section \<open>The normalizer\<close>

definition attr_key :: "bool \<Rightarrow> jsstring \<Rightarrow> jsstring" where
  "attr_key prefixAttr k = (if prefixAttr then js ''_'' @ k else k)"

definition skipped :: "jsstring \<Rightarrow> bool" where
  "skipped k = (k = js ''_attributes'' \<or> k = js ''_text'' \<or> k = js ''_declaration'')"

definition attribute_entries :: "jsval \<Rightarrow> (jsstring \<times> jsval) list" where
  "attribute_entries a =
     (if truthy a \<and> typeof a = ''object'' then object_entries a else [])"

definition merge_attributes :: "bool \<Rightarrow> (jsstring \<times> jsval) list \<Rightarrow> (jsstring \<times> jsval) list" where
  "merge_attributes prefixAttr node =
     foldl (\<lambda>out (k, v). obj_set out (attr_key prefixAttr k) v) []
       (attribute_entries (get_prop node (js ''_attributes'')))"

text \<open>
  \<open>normalizeXmlJs(node, { prefixAttr })\<close>: an array is mapped, an object whose only key is
  \<open>_text\<close> is replaced by that property, any other object is rebuilt from its attributes
  and then from its remaining properties, and everything else is returned as it is.
\<close>

fun normalizeXmlJs :: "bool \<Rightarrow> jsval \<Rightarrow> jsval" where
  "normalizeXmlJs prefixAttr (Arr ns) = Arr (map (normalizeXmlJs prefixAttr) ns)"
| "normalizeXmlJs prefixAttr (Obj node) =
     (if map fst node = [js ''_text''] then get_prop node (js ''_text'')
      else Obj (foldl (\<lambda>out (k, v).
                   if skipped k then out
                   else obj_set out k (normalizeXmlJs prefixAttr v))
                 (merge_attributes prefixAttr node) node))"
| "normalizeXmlJs prefixAttr v = v"

section \<open>The conversion action\<close>

text \<open>
  A call of a library function either returns a value or throws one. The parser
  (\<open>xml2js\<close>, \<open>xml2json\<close> of the package \<open>xml-js\<close>) and \<open>JSON.stringify\<close> are not part of
  the repository: the conversion takes them as parameters.
\<close>

datatype 'a outcome = Returns 'a | Throws jsval

text \<open>
  \<open>String.prototype.trim\<close> removes white space and line terminators from both ends: the
  code units of tab, line feed, vertical tab, form feed, carriage return, space,
  no-break space, the byte order mark, the line and paragraph separators and the
  space separators of Unicode.
\<close>

definition is_whitespace :: "16 word \<Rightarrow> bool" where
  "is_whitespace c =
     (c \<in> set [9, 10, 11, 12, 13, 32, 160, 5760, 8232, 8233, 8239, 8287, 12288, 65279]
      \<or> (8192 \<le> c \<and> c \<le> 8202))"

definition trim :: "jsstring \<Rightarrow> jsstring" where
  "trim s = rev (dropWhile is_whitespace (rev (dropWhile is_whitespace s)))"

text \<open>The read \<open>e?.message\<close> of a thrown value.\<close>

fun optional_message :: "jsval \<Rightarrow> jsval" where
  "optional_message (Obj kvs) = get_prop kvs (js ''message'')"
| "optional_message e = Undefined"

text \<open>The state of the component: the four \<open>useState\<close> cells the conversion touches or reads.\<close>

record ui =
  xml :: jsstring
  json :: jsval
  error :: jsval
  pretty :: bool

definition caught :: "jsval \<Rightarrow> ui \<Rightarrow> ui" where
  "caught e st =
     st\<lparr>json := Str [],
        error := (if truthy (optional_message e) then optional_message e
                  else Str (js ''Failed to convert XML''))\<rparr>"

text \<open>
  \<open>onConvert\<close> of the component that normalizes. The callback reads the \<open>xml\<close> of the
  current render and the \<open>pretty\<close> it closed over, which is the argument \<open>closed_pretty\<close>.
\<close>

definition onConvert ::
  "(jsstring \<Rightarrow> jsval outcome) \<Rightarrow> (jsval \<Rightarrow> nat \<Rightarrow> jsval) \<Rightarrow> bool \<Rightarrow> ui \<Rightarrow> ui" where
  "onConvert xml2js stringify closed_pretty st0 =
     (let st = st0\<lparr>error := Str []\<rparr> in
      if \<not> truthy (Str (trim (xml st))) then st\<lparr>json := Str []\<rparr>
      else case xml2js (xml st) of
             Throws e \<Rightarrow> caught e st
           | Returns jsObj \<Rightarrow>
               st\<lparr>json := stringify (normalizeXmlJs True jsObj) (if closed_pretty then 2 else 0)\<rparr>)"

text \<open>
  \<open>onConvert\<close> of \<open>src/App.jsx\<close>, which hands the text to \<open>xml2json\<close> with the option
  \<open>spaces: pretty ? 2 : 0\<close> and shows its result.
\<close>

definition onConvert_xml2json :: "(jsstring \<Rightarrow> nat \<Rightarrow> jsval outcome) \<Rightarrow> ui \<Rightarrow> ui" where
  "onConvert_xml2json xml2json st0 =
     (let st = st0\<lparr>error := Str []\<rparr> in
      if \<not> truthy (Str (trim (xml st))) then st\<lparr>json := Str []\<rparr>
      else case xml2json (xml st) (if pretty st then 2 else 0) of
             Throws e \<Rightarrow> caught e st
           | Returns result \<Rightarrow> st\<lparr>json := result\<rparr>)"

section \<open>Serialization and parsing of JSON\<close>

text \<open>
  \<open>JSON.stringify(value, null, space)\<close> and \<open>JSON.parse(text)\<close> are functions of the
  platform. They are modelled after the language standard for the values at hand. A
  number stands for an integral number and is written in decimal digits, as the
  platform writes an integral number of magnitude below \<open>10^21\<close>.
\<close>

definition hex_digit :: "nat \<Rightarrow> 16 word" where
  "hex_digit n = (if n < 10 then of_nat (48 + n) else of_nat (87 + n))"

definition unicode_escape :: "16 word \<Rightarrow> jsstring" where
  "unicode_escape c =
     [92, 117, hex_digit (unat c div 4096), hex_digit (unat c div 256 mod 16),
      hex_digit (unat c div 16 mod 16), hex_digit (unat c mod 16)]"

definition is_high_surrogate :: "16 word \<Rightarrow> bool" where
  "is_high_surrogate c = (55296 \<le> c \<and> c \<le> 56319)"

definition is_low_surrogate :: "16 word \<Rightarrow> bool" where
  "is_low_surrogate c = (56320 \<le> c \<and> c \<le> 57343)"

text \<open>
  The escape of one code unit that is not part of a surrogate pair: the short escapes,
  \<open>\uXXXX\<close> for the other control characters and for a lone surrogate, and the code unit
  itself otherwise.
\<close>

definition escape_unit :: "16 word \<Rightarrow> jsstring" where
  "escape_unit c =
     (if c = 8 then [92, 98]
      else if c = 9 then [92, 116]
      else if c = 10 then [92, 110]
      else if c = 12 then [92, 102]
      else if c = 13 then [92, 114]
      else if c = 34 then [92, 34]
      else if c = 92 then [92, 92]
      else if c < 32 \<or> is_high_surrogate c \<or> is_low_surrogate c then unicode_escape c
      else [c])"

fun quote_units :: "jsstring \<Rightarrow> jsstring" where
  "quote_units [] = []"
| "quote_units [c] = escape_unit c"
| "quote_units (c # d # ds) =
     (if is_high_surrogate c \<and> is_low_surrogate d then c # d # quote_units ds
      else escape_unit c @ quote_units (d # ds))"

definition quote_json_string :: "jsstring \<Rightarrow> jsstring" where
  "quote_json_string s = 34 # quote_units s @ [34]"

definition number_text :: "int \<Rightarrow> jsstring" where
  "number_text n = (if n < 0 then 45 # digits_of (nat (- n)) else digits_of (nat n))"

fun join :: "jsstring \<Rightarrow> jsstring list \<Rightarrow> jsstring" where
  "join sep [] = []"
| "join sep [p] = p"
| "join sep (p # q # ps) = p @ sep @ join sep (q # ps)"

text \<open>
  The text of an array or an object from the texts of its parts: \<open>opening\<close> and \<open>closing\<close>
  are the brackets, \<open>gap\<close> the unit of indentation and \<open>indent\<close> the indentation of the
  enclosing level.
\<close>

definition wrap :: "16 word \<Rightarrow> 16 word \<Rightarrow> jsstring \<Rightarrow> jsstring \<Rightarrow> jsstring list \<Rightarrow> jsstring" where
  "wrap opening closing gap indent parts =
     (if parts = [] then [opening, closing]
      else if gap = [] then opening # join [44] parts @ [closing]
      else opening # 10 # (indent @ gap) @ join (44 # 10 # (indent @ gap)) parts
             @ 10 # indent @ [closing])"

text \<open>
  The text of a value, or \<open>None\<close> where the platform gives \<open>undefined\<close>. An element of an
  array without a text is written \<open>null\<close>; a property without a text is left out.
\<close>

fun serialize :: "jsstring \<Rightarrow> jsstring \<Rightarrow> jsval \<Rightarrow> jsstring option" where
  "serialize gap indent Undefined = None"
| "serialize gap indent Null = Some (js ''null'')"
| "serialize gap indent (Bool b) = Some (if b then js ''true'' else js ''false'')"
| "serialize gap indent (Num n) = Some (number_text n)"
| "serialize gap indent (Str s) = Some (quote_json_string s)"
| "serialize gap indent (Arr xs) =
     Some (wrap 91 93 gap indent
       (map (\<lambda>x. case serialize gap (indent @ gap) x of None \<Rightarrow> js ''null'' | Some t \<Rightarrow> t) xs))"
| "serialize gap indent (Obj kvs) =
     Some (wrap 123 125 gap indent
       (concat (map (\<lambda>(k, v). case serialize gap (indent @ gap) v of
                        None \<Rightarrow> []
                      | Some t \<Rightarrow> [quote_json_string k @ 58 # (if gap = [] then [] else [32]) @ t])
                 kvs)))"

definition JSON_stringify :: "jsval \<Rightarrow> nat \<Rightarrow> jsstring option" where
  "JSON_stringify v space = serialize (replicate (min space 10) 32) [] v"

datatype token =
    LBrace | RBrace | LBracket | RBracket | Colon | Comma
  | TString jsstring | TNumber int | TNull | TTrue | TFalse

definition json_whitespace :: "16 word \<Rightarrow> bool" where
  "json_whitespace c = (c = 9 \<or> c = 10 \<or> c = 13 \<or> c = 32)"

definition hex_value :: "16 word \<Rightarrow> nat option" where
  "hex_value c =
     (if 48 \<le> c \<and> c \<le> 57 then Some (unat c - 48)
      else if 97 \<le> c \<and> c \<le> 102 then Some (unat c - 87)
      else if 65 \<le> c \<and> c \<le> 70 then Some (unat c - 55)
      else None)"

definition hex4 :: "16 word \<Rightarrow> 16 word \<Rightarrow> 16 word \<Rightarrow> 16 word \<Rightarrow> 16 word option" where
  "hex4 a b c d =
     (case (hex_value a, hex_value b, hex_value c, hex_value d) of
        (Some h3, Some h2, Some h1, Some h0) \<Rightarrow> Some (of_nat (4096 * h3 + 256 * h2 + 16 * h1 + h0))
      | _ \<Rightarrow> None)"

definition unescape :: "16 word \<Rightarrow> 16 word option" where
  "unescape e =
     (if e = 34 then Some 34
      else if e = 92 then Some 92
      else if e = 47 then Some 47
      else if e = 98 then Some 8
      else if e = 102 then Some 12
      else if e = 110 then Some 10
      else if e = 114 then Some 13
      else if e = 116 then Some 9
      else None)"

text \<open>
  The characters of a string literal after its opening quote: the string they denote
  and the text after the closing quote.
\<close>

fun lex_string :: "jsstring \<Rightarrow> (jsstring \<times> jsstring) option" where
  "lex_string [] = None"
| "lex_string (c # cs) =
     (if c = 34 then Some ([], cs)
      else if c = 92 then
        (case cs of
           [] \<Rightarrow> None
         | e # cs' \<Rightarrow>
             if e = 117 then
               (case cs' of
                  a # b # c' # d # cs'' \<Rightarrow>
                    (case hex4 a b c' d of
                       None \<Rightarrow> None
                     | Some u \<Rightarrow> map_option (\<lambda>(s, rest). (u # s, rest)) (lex_string cs''))
                | _ \<Rightarrow> None)
             else
               (case unescape e of
                  None \<Rightarrow> None
                | Some u \<Rightarrow> map_option (\<lambda>(s, rest). (u # s, rest)) (lex_string cs')))
      else if c < 32 then None
      else map_option (\<lambda>(s, rest). (c # s, rest)) (lex_string cs))"

text \<open>
  A number literal: an optional minus sign and decimal digits without a leading zero.
  A fraction or an exponent denotes no integral number and is not covered.
\<close>

definition lex_number :: "jsstring \<Rightarrow> (token \<times> jsstring) option" where
  "lex_number s =
     (let negative = (s \<noteq> [] \<and> hd s = 45);
          body = (if negative then tl s else s);
          ds = takeWhile is_digit body;
          rest = dropWhile is_digit body
      in if ds = [] then None
         else if hd ds = 48 \<and> length ds > 1 then None
         else if rest \<noteq> [] \<and> (hd rest = 46 \<or> hd rest = 101 \<or> hd rest = 69) then None
         else Some (TNumber (if negative then - int (index_value ds) else int (index_value ds)), rest))"

definition lex_word :: "jsstring \<Rightarrow> (token \<times> jsstring) option" where
  "lex_word s =
     (if take 4 s = js ''null'' then Some (TNull, drop 4 s)
      else if take 4 s = js ''true'' then Some (TTrue, drop 4 s)
      else if take 5 s = js ''false'' then Some (TFalse, drop 5 s)
      else lex_number s)"

text \<open>The tokens of a JSON text, white space between them skipped.\<close>

definition cons_token :: "token \<Rightarrow> token list option \<Rightarrow> token list option" where
  "cons_token t r = map_option ((#) t) r"

function lex :: "jsstring \<Rightarrow> token list option" where
  "lex [] = Some []"
| "lex (c # cs) =
     (if json_whitespace c then lex cs
      else if c = 123 then cons_token LBrace (lex cs)
      else if c = 125 then cons_token RBrace (lex cs)
      else if c = 91 then cons_token LBracket (lex cs)
      else if c = 93 then cons_token RBracket (lex cs)
      else if c = 58 then cons_token Colon (lex cs)
      else if c = 44 then cons_token Comma (lex cs)
      else if c = 34 then
        (case lex_string cs of
           None \<Rightarrow> None
         | Some (s, rest) \<Rightarrow> cons_token (TString s) (lex rest))
      else
        (case lex_word (c # cs) of
           None \<Rightarrow> None
         | Some (t, rest) \<Rightarrow> cons_token t (lex rest)))"
  by pat_completeness auto
termination
proof -
  have str: "length rest \<le> length cs" if "lex_string cs = Some (s, rest)" for cs s rest
    using that
  proof (induction cs arbitrary: s rest rule: lex_string.induct)
    case 1
    then show ?case by simp
  next
    case (2 c cs)
    then show ?case
      by (fastforce split: if_splits list.splits option.splits)
  qed
  have num: "length rest < length s" if "lex_number s = Some (t, rest)" for s t rest
  proof -
    define body where "body = (if s \<noteq> [] \<and> hd s = 45 then tl s else s)"
    from that have "takeWhile is_digit body \<noteq> []" and r: "rest = dropWhile is_digit body"
      by (auto simp: lex_number_def Let_def body_def split: if_splits)
    have "length (takeWhile is_digit body) + length (dropWhile is_digit body) = length body"
      by (simp only: length_append [symmetric] takeWhile_dropWhile_id)
    with \<open>takeWhile is_digit body \<noteq> []\<close> have "length (dropWhile is_digit body) < length body"
      by (cases "takeWhile is_digit body") simp_all
    moreover have "length body \<le> length s" by (cases s) (simp_all add: body_def)
    ultimately show ?thesis using r by simp
  qed
  have word: "length rest < length s" if "lex_word s = Some (t, rest)" for s t rest
  proof -
    have shorter: "length s - n < length s" if "take n s = w" "w \<noteq> []" for n w
    proof -
      from that have "s \<noteq> []" "n \<noteq> 0" by auto
      then show ?thesis by (cases s) auto
    qed
    from that consider "take 4 s = js ''null''" "rest = drop 4 s"
      | "take 4 s = js ''true''" "rest = drop 4 s"
      | "take 5 s = js ''false''" "rest = drop 5 s"
      | "lex_number s = Some (t, rest)"
      by (auto simp: lex_word_def split: if_splits)
    then show ?thesis
    proof cases
      case 1 then show ?thesis using shorter [of 4 "js ''null''"] by (simp add: js_def)
    next
      case 2 then show ?thesis using shorter [of 4 "js ''true''"] by (simp add: js_def)
    next
      case 3 then show ?thesis using shorter [of 5 "js ''false''"] by (simp add: js_def)
    next
      case 4 then show ?thesis by (rule num)
    qed
  qed
  show ?thesis
  proof (relation "measure length", goal_cases)
    case (9 c cs x2 s rest)
    with str [of cs s rest] show ?case by simp
  next
    case (10 c cs x2 t rest)
    with word [of "c # cs" t rest] show ?case by simp
  qed simp_all
qed


text \<open>
  The properties of a parsed object are created in the order of the text; a repeated
  key overwrites.
\<close>

definition create_all :: "(jsstring \<times> jsval) list \<Rightarrow> (jsstring \<times> jsval) list" where
  "create_all kvs = foldl (\<lambda>out (k, v). create_prop out k v) [] kvs"

text \<open>
  The value a list of tokens starts with, and the tokens after it. The first argument
  bounds the depth of the recursion; \<open>JSON_parse\<close> gives it the number of tokens, which
  is shown below to be enough for the text of a value.
\<close>

fun parse_value :: "nat \<Rightarrow> token list \<Rightarrow> (jsval \<times> token list) option"
  and parse_elements :: "nat \<Rightarrow> token list \<Rightarrow> (jsval list \<times> token list) option"
  and parse_members :: "nat \<Rightarrow> token list \<Rightarrow> ((jsstring \<times> jsval) list \<times> token list) option"
where
  "parse_value 0 ts = None"
| "parse_value (Suc n) [] = None"
| "parse_value (Suc n) (t # ts) =
     (case t of
        TString s \<Rightarrow> Some (Str s, ts)
      | TNumber i \<Rightarrow> Some (Num i, ts)
      | TNull \<Rightarrow> Some (Null, ts)
      | TTrue \<Rightarrow> Some (Bool True, ts)
      | TFalse \<Rightarrow> Some (Bool False, ts)
      | LBracket \<Rightarrow>
          (case ts of
             RBracket # ts' \<Rightarrow> Some (Arr [], ts')
           | _ \<Rightarrow> map_option (\<lambda>(xs, rest). (Arr xs, rest)) (parse_elements n ts))
      | LBrace \<Rightarrow>
          (case ts of
             RBrace # ts' \<Rightarrow> Some (Obj [], ts')
           | _ \<Rightarrow> map_option (\<lambda>(kvs, rest). (Obj (create_all kvs), rest)) (parse_members n ts))
      | _ \<Rightarrow> None)"
| "parse_elements 0 ts = None"
| "parse_elements (Suc n) ts =
     (case parse_value n ts of
        None \<Rightarrow> None
      | Some (x, ts') \<Rightarrow>
          (case ts' of
             Comma # ts'' \<Rightarrow> map_option (\<lambda>(xs, rest). (x # xs, rest)) (parse_elements n ts'')
           | RBracket # ts'' \<Rightarrow> Some ([x], ts'')
           | _ \<Rightarrow> None))"
| "parse_members 0 ts = None"
| "parse_members (Suc n) ts =
     (case ts of
        TString k # Colon # ts1 \<Rightarrow>
          (case parse_value n ts1 of
             None \<Rightarrow> None
           | Some (v, ts2) \<Rightarrow>
               (case ts2 of
                  Comma # ts3 \<Rightarrow> map_option (\<lambda>(kvs, rest). ((k, v) # kvs, rest)) (parse_members n ts3)
                | RBrace # ts3 \<Rightarrow> Some ([(k, v)], ts3)
                | _ \<Rightarrow> None))
      | _ \<Rightarrow> None)"

text \<open>\<open>JSON.parse(text)\<close>: \<open>None\<close> stands for the \<open>SyntaxError\<close>.\<close>

definition JSON_parse :: "jsstring \<Rightarrow> jsval option" where
  "JSON_parse text =
     (case lex text of
        None \<Rightarrow> None
      | Some ts \<Rightarrow>
          (case parse_value (length ts) ts of
             Some (v, []) \<Rightarrow> Some v
           | _ \<Rightarrow> None))"


section \<open>Notions used to state the properties\<close>

text \<open>A run of assignments \<open>out[k] = v\<close>, one for each entry of a list.\<close>

definition set_all :: "(jsstring \<times> jsval) list \<Rightarrow> (jsstring \<times> jsval) list \<Rightarrow> (jsstring \<times> jsval) list" where
  "set_all out es = foldl (\<lambda>out (k, v). obj_set out k v) out es"

text \<open>The properties of a node that the second loop of the normalizer does not skip.\<close>

definition child_entries :: "(jsstring \<times> jsval) list \<Rightarrow> (jsstring \<times> jsval) list" where
  "child_entries node = filter (\<lambda>(k, v). \<not> skipped k) node"

definition without_text :: "(jsstring \<times> jsval) list \<Rightarrow> (jsstring \<times> jsval) list" where
  "without_text node = filter (\<lambda>(k, v). k \<noteq> js ''_text'') node"









text \<open>
  The values of the specification's output type: strings, arrays and objects of such.
\<close>

fun normalized_value :: "jsval \<Rightarrow> bool" where
  "normalized_value (Str s) = True"
| "normalized_value (Arr xs) = (\<forall>x \<in> set xs. normalized_value x)"
| "normalized_value (Obj kvs) = (\<forall>(k, v) \<in> set kvs. normalized_value v)"
| "normalized_value v = False"

text \<open>The value a parse of the text of a value gives back.\<close>

fun reparsed :: "jsval \<Rightarrow> jsval" where
  "reparsed (Arr xs) = Arr (map reparsed xs)"
| "reparsed (Obj kvs) = Obj (create_all (map (\<lambda>(k, v). (k, reparsed v)) kvs))"
| "reparsed v = v"

text \<open>The tokens of the text of a value, and a depth that parsing them needs.\<close>

fun separated :: "token list list \<Rightarrow> token \<Rightarrow> token list" where
  "separated [] closing = [closing]"
| "separated [p] closing = p @ [closing]"
| "separated (p # q # ps) closing = p @ Comma # separated (q # ps) closing"

fun tokens_of :: "jsval \<Rightarrow> token list" where
  "tokens_of (Str s) = [TString s]"
| "tokens_of (Arr xs) = LBracket # separated (map tokens_of xs) RBracket"
| "tokens_of (Obj kvs) =
     LBrace # separated (map (\<lambda>(k, v). TString k # Colon # tokens_of v) kvs) RBrace"
| "tokens_of v = []"

fun fuel_for :: "jsval \<Rightarrow> nat" where
  "fuel_for (Arr xs) = Suc (sum_list (map (\<lambda>x. Suc (fuel_for x)) xs))"
| "fuel_for (Obj kvs) = Suc (sum_list (map (\<lambda>(k, v). Suc (fuel_for v)) kvs))"
| "fuel_for v = 1"

text \<open>A text whose tokens are \<open>ts\<close>, whatever text follows it.\<close>

definition lexes_to :: "jsstring \<Rightarrow> token list \<Rightarrow> bool" where
  "lexes_to p ts =
     (\<forall>rest. lex (p @ rest) = (case lex rest of None \<Rightarrow> None | Some us \<Rightarrow> Some (ts @ us)))"


section \<open>Basic facts\<close>

lemma obj_set_unfold:
  "obj_set out k v =
     (if k = js ''__proto__'' then out
      else if k \<in> set (map fst out)
        then map (\<lambda>(k', v'). if k' = k then (k', v) else (k', v')) out
      else if is_array_index k then insert_index k v out
      else out @ [(k, v)])"
  by (simp add: obj_set_def create_prop_def)


lemma js_text_neq_attributes [simp]: "js ''_text'' \<noteq> js ''_attributes''"
  by (simp add: js_def)

lemma get_prop_single [simp]: "get_prop [(k, v)] k = v"
  by (simp add: get_prop_def)

subsection \<open>Assignments\<close>

lemma set_all_Nil [simp]: "set_all out [] = out" by (simp add: set_all_def)
lemma set_all_Cons [simp]: "set_all out ((k, v) # es) = set_all (obj_set out k v) es" by (simp add: set_all_def)

lemma children_loop:
  "foldl (\<lambda>out (k, v). if skipped k then out else obj_set out k (f v)) init node
   = set_all init (map (\<lambda>(k, v). (k, f v)) (child_entries node))"
  by (induction node arbitrary: init) (auto simp: child_entries_def)

lemma normalize_Obj:
  "normalizeXmlJs p (Obj node) =
     (if map fst node = [js ''_text''] then get_prop node (js ''_text'')
      else Obj (set_all (merge_attributes p node)
                  (map (\<lambda>(k, v). (k, normalizeXmlJs p v)) (child_entries node))))"
  by (simp add: children_loop)

lemma keys_insert_index: "fst ` set (insert_index k v out) = insert k (fst ` set out)"
  by (induction k v out rule: insert_index.induct) auto

lemma set_insert_index: "set (insert_index k v out) = insert (k, v) (set out)"
  by (induction k v out rule: insert_index.induct) auto

lemma keys_replace:
  "map fst (map (\<lambda>(k', v'). if k' = k then (k', v) else (k', v')) out) = map fst out"
  by (induction out) auto

lemma keys_replace_set:
  "fst ` (\<lambda>(k', v'). if k' = k then (k', v) else (k', v')) ` set out = fst ` set out"
  using arg_cong [OF keys_replace [of k v out], of set] by (simp add: image_image)

lemma keys_obj_set:
  "fst ` set (obj_set out k v) =
     (if k = js ''__proto__'' then fst ` set out else insert k (fst ` set out))"
  by (simp add: obj_set_unfold keys_insert_index keys_replace_set insert_absorb)

lemma set_replace:
  "set (map (\<lambda>(k', v'). if k' = k then (k', v) else (k', v')) out) \<subseteq> insert (k, v) (set out)"
  by (induction out) auto

lemma set_obj_set: "set (obj_set out k v) \<subseteq> insert (k, v) (set out)"
  using set_replace [of k v out] by (auto simp: obj_set_unfold set_insert_index)

lemma set_set_all: "set (set_all out es) \<subseteq> set out \<union> set es"
proof (induction es arbitrary: out)
  case Nil then show ?case by simp
next
  case (Cons e es)
  obtain k v where e: "e = (k, v)" by (cases e)
  from Cons[of "obj_set out k v"] set_obj_set[of out k v] show ?case unfolding e by auto
qed

lemma map_of_insert_index:
  "k \<notin> fst ` set out \<Longrightarrow> map_of (insert_index k v out) = (map_of out)(k \<mapsto> v)"
proof (induction k v out rule: insert_index.induct)
  case (1 k v) then show ?case by simp
next
  case (2 k v k' v' kvs)
  then have "k \<noteq> k'" by auto
  with 2 show ?case by (auto simp: fun_upd_twist)
qed

lemma map_of_replace:
  "map_of (map (\<lambda>(k', v'). if k' = k then (k', v) else (k', v')) out) q =
     (if q = k \<and> k \<in> fst ` set out then Some v else map_of out q)"
proof (induction out)
  case Nil then show ?case by simp
next
  case (Cons e out)
  obtain a b where e: "e = (a, b)" by (cases e)
  show ?case unfolding e using Cons by (cases "q = k") auto
qed

lemma map_of_snoc:
  "k \<notin> fst ` set out \<Longrightarrow> map_of (out @ [(k, v)]) = (map_of out)(k \<mapsto> v)"
  by (induction out) (auto simp: fun_upd_twist)

lemma map_of_obj_set:
  "map_of (obj_set out k v) k' =
     (if k = js ''__proto__'' then map_of out k'
      else if k' = k then Some v else map_of out k')"
proof (cases "k = js ''__proto__''")
  case True then show ?thesis by (simp add: obj_set_unfold)
next
  case np: False
  show ?thesis
  proof (cases "k \<in> fst ` set out")
    case True
    with np show ?thesis by (simp add: obj_set_unfold map_of_replace del: map_map)
  next
    case False
    with np show ?thesis
      by (simp add: obj_set_unfold map_of_insert_index map_of_snoc del: map_of_append)
  qed
qed



subsection \<open>Runs of assignments\<close>

lemma map_of_set_all:
  "map_of (set_all out es) q =
     (if q = js ''__proto__'' then map_of out q
      else case map_of (rev es) q of Some v \<Rightarrow> Some v | None \<Rightarrow> map_of out q)"
proof (induction es arbitrary: out)
  case Nil then show ?case by simp
next
  case (Cons e es)
  obtain k v where e: "e = (k, v)" by (cases e)
  show ?case unfolding e
    by (simp add: Cons map_of_obj_set map_add_def split: option.splits)
qed

lemma keys_set_all_plain:
  assumes "distinct (map fst es)"
    and "\<forall>k \<in> fst ` set es. \<not> is_array_index k \<and> k \<noteq> js ''__proto__''"
  shows "map fst (set_all out es) = map fst out @ filter (\<lambda>k. k \<notin> fst ` set out) (map fst es)"
  using assms
proof (induction es arbitrary: out)
  case Nil then show ?case by simp
next
  case (Cons e es)
  obtain k v where e: "e = (k, v)" by (cases e)
  from Cons.prems have k: "\<not> is_array_index k" "k \<noteq> js ''__proto__''" "k \<notin> fst ` set es"
    and d: "distinct (map fst es)"
    and r: "\<forall>k \<in> fst ` set es. \<not> is_array_index k \<and> k \<noteq> js ''__proto__''"
    by (auto simp: e)
  have step: "map fst (obj_set out k v) = (if k \<in> fst ` set out then map fst out else map fst out @ [k])"
    using k keys_replace [of k v out] by (simp add: obj_set_unfold del: map_map)
  have flt: "filter (\<lambda>q. q \<notin> fst ` set (obj_set out k v)) (map fst es)
           = filter (\<lambda>q. q \<notin> fst ` set out) (map fst es)"
    using k by (intro filter_cong) (auto simp: keys_obj_set)
  show ?case unfolding e
    using Cons.IH [OF d r, of "obj_set out k v"] step flt by simp
qed

lemma merge_attributes_set_all:
  "merge_attributes p node =
     set_all [] (map (\<lambda>(k, v). (attr_key p k, v)) (attribute_entries (get_prop node (js ''_attributes''))))"
proof -
  have "foldl (\<lambda>out (k, v). obj_set out (attr_key p k) v) init es
        = set_all init (map (\<lambda>(k, v). (attr_key p k, v)) es)" for init es
    by (induction es arbitrary: init) auto
  then show ?thesis by (simp add: merge_attributes_def)
qed

lemma inj_attr_key: "attr_key p k = attr_key p k' \<longleftrightarrow> k = k'"
  by (simp add: attr_key_def)

lemma get_prop_without_text:
  "k \<noteq> js ''_text'' \<Longrightarrow> get_prop (without_text node) k = get_prop node k"
  by (induction node) (auto simp: get_prop_def without_text_def)

lemma child_entries_without_text: "child_entries (without_text node) = child_entries node"
  by (induction node) (auto simp: child_entries_def without_text_def skipped_def)

lemma keys_without_text: "map fst (without_text node) \<noteq> [js ''_text'']"
proof
  assume "map fst (without_text node) = [js ''_text'']"
  then have "js ''_text'' \<in> fst ` set (without_text node)"
    by (metis list.set_intros(1) set_map)
  then show False by (auto simp: without_text_def)
qed

lemma built_keys:
  assumes "set out \<subseteq> set (map (\<lambda>(k, v). (attr_key p k, v)) A) \<union> set (map (\<lambda>(k, v). (k, f v)) C)"
  shows "fst ` set out \<subseteq> attr_key p ` fst ` set A \<union> fst ` set C"
proof
  fix a assume "a \<in> fst ` set out"
  then obtain b where "(a, b) \<in> set out" by auto
  with assms consider "(a, b) \<in> set (map (\<lambda>(k, v). (attr_key p k, v)) A)"
    | "(a, b) \<in> set (map (\<lambda>(k, v). (k, f v)) C)"
    by blast
  then show "a \<in> attr_key p ` fst ` set A \<union> fst ` set C"
  proof cases
    case 1
    then obtain k where k: "(k, b) \<in> set A" "a = attr_key p k" by auto
    from k(1) have "k \<in> fst ` set A" by (rule rev_image_eqI) simp
    with k(2) show ?thesis by simp
  next
    case 2
    then obtain c where c: "(a, c) \<in> set C" by auto
    then have "a \<in> fst ` set C" by (rule rev_image_eqI) simp
    then show ?thesis by simp
  qed
qed

lemma merge_attributes_subset:
  "set (merge_attributes p node)
     \<subseteq> set (map (\<lambda>(k, v). (attr_key p k, v)) (attribute_entries (get_prop node (js ''_attributes''))))"
  unfolding merge_attributes_set_all
  using set_set_all [of "[]" "map (\<lambda>(k, v). (attr_key p k, v)) (attribute_entries (get_prop node (js ''_attributes'')))"]
  by simp

lemma other_key_not_leaf:
  assumes "k \<in> fst ` set node" and "k \<noteq> js ''_text''"
  shows "map fst node \<noteq> [js ''_text'']"
proof
  assume "map fst node = [js ''_text'']"
  then have "set (map fst node) = {js ''_text''}" by simp
  with assms show False by simp
qed

subsection \<open>Objects built from attributes and children\<close>

lemma map_of_rev_distinct:
  assumes "distinct (map fst xs)"
  shows "map_of (rev xs) = map_of xs"
proof
  fix k
  show "map_of (rev xs) k = map_of xs k"
  proof (cases "map_of xs k")
    case None
    then have "k \<notin> fst ` set xs" by (simp add: map_of_eq_None_iff)
    then have "map_of (rev xs) k = None" by (simp add: map_of_eq_None_iff)
    with None show ?thesis by simp
  next
    case (Some v)
    then have "(k, v) \<in> set (rev xs)" by (simp add: map_of_SomeD)
    moreover have "distinct (map fst (rev xs))" using assms by (simp add: rev_map [symmetric] del: map_map)
    ultimately have "map_of (rev xs) k = Some v" by (rule map_of_is_SomeI [rotated])
    with Some show ?thesis by simp
  qed
qed

lemma map_of_built:
  assumes "distinct (map fst A)" and "distinct (map fst C)" and "q \<noteq> js ''__proto__''"
  shows "map_of (set_all (set_all [] A) C) q =
           (case map_of C q of Some v \<Rightarrow> Some v | None \<Rightarrow> map_of A q)"
  using assms by (simp add: map_of_set_all map_of_rev_distinct split: option.splits)

lemma keys_built:
  assumes "distinct (map fst A)" and "distinct (map fst C)"
    and "\<forall>k \<in> fst ` set A \<union> fst ` set C. \<not> is_array_index k \<and> k \<noteq> js ''__proto__''"
  shows "map fst (set_all (set_all [] A) C) = map fst A @ filter (\<lambda>k. k \<notin> fst ` set A) (map fst C)"
proof -
  have a: "map fst (set_all [] A) = map fst A"
    using keys_set_all_plain [of A "[]"] assms by simp
  then have "fst ` set (set_all [] A) = fst ` set A"
    by (metis set_map)
  moreover have "map fst (set_all (set_all [] A) C)
      = map fst (set_all [] A) @ filter (\<lambda>k. k \<notin> fst ` set (set_all [] A)) (map fst C)"
    using assms by (intro keys_set_all_plain) simp_all
  ultimately show ?thesis using a by simp
qed

lemma distinct_attr_keys:
  "distinct (map fst A) \<Longrightarrow> distinct (map fst (map (\<lambda>(k, v). (attr_key p k, v)) A))"
proof -
  assume d: "distinct (map fst A)"
  have "map fst (map (\<lambda>(k, v). (attr_key p k, v)) A) = map (attr_key p) (map fst A)"
    by (induction A) auto
  moreover have "inj (attr_key p)" by (simp add: inj_def inj_attr_key)
  then have "inj_on (attr_key p) (set (map fst A))" by (rule inj_on_subset) simp
  ultimately show ?thesis using d by (simp only: distinct_map)
qed

lemma keys_attr_entries:
  "map fst (map (\<lambda>(k, v). (attr_key p k, v)) A) = map (attr_key p) (map fst A)"
  by (induction A) auto

lemma keys_child_values:
  "map fst (map (\<lambda>(k, v). (k, f v)) C) = map fst C"
  by (induction C) auto

lemma distinct_child_entries:
  "distinct (map fst node) \<Longrightarrow> distinct (map fst (child_entries node))"
  unfolding child_entries_def by (induction node) (auto simp: image_iff)



subsection \<open>Nodes of the parser adapter\<close>












subsection \<open>Key order of built objects\<close>



















section \<open>Pure text leaves\<close>

text \<open>
  C1. An element whose only populated field is its text, the object \<open>{_text: t}\<close>,
  normalizes to \<open>t\<close> itself: to the bare string when \<open>t\<close> is a string, never to an object.
  The tree of \<open><a>hello</a>\<close> normalizes its \<open>a\<close> key to the string \<open>hello\<close>.
\<close>

theorem pure_text_leaf_flattened:
  "normalizeXmlJs p (Obj [(js ''_text'', t)]) = t
   \<and> normalizeXmlJs p (Obj [(js ''_text'', Str s)]) = Str s
   \<and> normalizeXmlJs p (Obj [(js ''a'', Obj [(js ''_text'', Str (js ''hello''))])])
       = Obj [(js ''a'', Str (js ''hello''))]"
  by (simp add: merge_attributes_def attribute_entries_def get_prop_def skipped_def
      obj_set_unfold is_array_index_def is_digit_def js_def)

theorem pure_text_leaf_flattened_witness:
  "normalizeXmlJs True (Obj [(js ''_text'', Str (js ''hello''))]) = Str (js ''hello'')"
  using pure_text_leaf_flattened [of True "Str (js ''hello'')" "js ''hello''"] by simp

section \<open>Sequences\<close>

text \<open>
  C4. An ordered sequence of nodes normalizes to an array of the same length whose
  element at each position is the normalized element of that position. Two siblings
  \<open><a>1</a><a>2</a>\<close> normalize their parent's \<open>a\<close> key to the array of \<open>1\<close> and \<open>2\<close>, in
  that order.
\<close>

theorem sequence_mapped_in_order:
  "(\<exists>rs. normalizeXmlJs p (Arr ns) = Arr rs
         \<and> rs = map (normalizeXmlJs p) ns
         \<and> length rs = length ns
         \<and> (\<forall>i < length ns. rs ! i = normalizeXmlJs p (ns ! i)))
   \<and> normalizeXmlJs p (Obj [(js ''a'', Arr [Obj [(js ''_text'', Str (js ''1''))],
                                            Obj [(js ''_text'', Str (js ''2''))]])])
       = Obj [(js ''a'', Arr [Str (js ''1''), Str (js ''2'')])]"
  by (simp add: merge_attributes_def attribute_entries_def get_prop_def skipped_def
      obj_set_unfold is_array_index_def is_digit_def js_def)

theorem sequence_mapped_in_order_witness:
  "normalizeXmlJs True (Arr [Obj [(js ''_text'', Str (js ''1''))], Str (js ''2'')])
     = Arr [Str (js ''1''), Str (js ''2'')]"
  using sequence_mapped_in_order [of True "[Obj [(js ''_text'', Str (js ''1''))], Str (js ''2'')]"]
  by simp

section \<open>Attributes and children\<close>

text \<open>
  An element that is rebuilt as an object, with distinct keys and distinct attribute
  names, yields an object in which every attribute \<open>(k, v)\<close> is found under its output
  key (\<open>_\<close> followed by \<open>k\<close> with prefixing, \<open>k\<close> without) with the value \<open>v\<close> unchanged,
  unless a child has that same key; every child is found under its own key with its
  normalized value, also where an attribute had taken that key before, so the later
  assignment of the child wins. The attribute keys come first, in their order, and the
  child keys that are new follow in theirs. All of this is for keys other than
  \<open>__proto__\<close>, and the order for keys that are not array indices.
\<close>

theorem attributes_then_children:
  assumes leaf: "map fst node \<noteq> [js ''_text'']"
    and attrs: "attrs = attribute_entries (get_prop node (js ''_attributes''))"
    and dn: "distinct (map fst node)"
    and da: "distinct (map fst attrs)"
  shows "\<exists>out. normalizeXmlJs p (Obj node) = Obj out
     \<and> (\<forall>(k, v) \<in> set attrs.
           attr_key p k \<noteq> js ''__proto__'' \<and> attr_key p k \<notin> fst ` set (child_entries node)
           \<longrightarrow> map_of out (attr_key p k) = Some v)
     \<and> (\<forall>(k, c) \<in> set (child_entries node).
           k \<noteq> js ''__proto__'' \<longrightarrow> map_of out k = Some (normalizeXmlJs p c))
     \<and> ((\<forall>k \<in> attr_key p ` fst ` set attrs \<union> fst ` set (child_entries node).
            \<not> is_array_index k \<and> k \<noteq> js ''__proto__'')
          \<longrightarrow> map fst out = map (attr_key p) (map fst attrs)
                @ filter (\<lambda>k. k \<notin> attr_key p ` fst ` set attrs) (map fst (child_entries node)))"
proof -
  define A where "A = map (\<lambda>(k, v). (attr_key p k, v)) attrs"
  define C where "C = map (\<lambda>(k, v). (k, normalizeXmlJs p v)) (child_entries node)"
  define out where "out = set_all (set_all [] A) C"
  have res: "normalizeXmlJs p (Obj node) = Obj out"
    using leaf by (simp add: normalize_Obj merge_attributes_set_all out_def A_def C_def attrs
        del: normalizeXmlJs.simps)
  have dA: "distinct (map fst A)" unfolding A_def using da by (rule distinct_attr_keys)
  have kA: "map fst A = map (attr_key p) (map fst attrs)" unfolding A_def by (rule keys_attr_entries)
  have kC: "map fst C = map fst (child_entries node)" unfolding C_def by (rule keys_child_values)
  have dC: "distinct (map fst C)" unfolding kC using dn by (rule distinct_child_entries)
  have sA: "fst ` set A = attr_key p ` fst ` set attrs"
    using arg_cong [OF kA, of set] by (simp add: image_image)
  have sC: "fst ` set C = fst ` set (child_entries node)"
    using arg_cong [OF kC, of set] by simp
  have lookup: "map_of out q = (case map_of C q of Some v \<Rightarrow> Some v | None \<Rightarrow> map_of A q)"
    if "q \<noteq> js ''__proto__''" for q
    unfolding out_def using dA dC that by (rule map_of_built)
  have one: "map_of out (attr_key p k) = Some v"
    if kv: "(k, v) \<in> set attrs" and np: "attr_key p k \<noteq> js ''__proto__''"
      and nc: "attr_key p k \<notin> fst ` set (child_entries node)" for k v
  proof -
    from nc have "map_of C (attr_key p k) = None" by (simp add: map_of_eq_None_iff sC)
    moreover have "(attr_key p k, v) \<in> set A" unfolding A_def using kv by force
    with dA have "map_of A (attr_key p k) = Some v" by (rule map_of_is_SomeI)
    ultimately show ?thesis using lookup [OF np] by simp
  qed
  have two: "map_of out k = Some (normalizeXmlJs p c)"
    if kc: "(k, c) \<in> set (child_entries node)" and np: "k \<noteq> js ''__proto__''" for k c
  proof -
    have "(k, normalizeXmlJs p c) \<in> set C" unfolding C_def using kc by force
    with dC have "map_of C k = Some (normalizeXmlJs p c)" by (rule map_of_is_SomeI)
    then show ?thesis using lookup [OF np] by simp
  qed
  have three: "map fst out = map (attr_key p) (map fst attrs)
                @ filter (\<lambda>k. k \<notin> attr_key p ` fst ` set attrs) (map fst (child_entries node))"
    if plain: "\<forall>k \<in> attr_key p ` fst ` set attrs \<union> fst ` set (child_entries node).
            \<not> is_array_index k \<and> k \<noteq> js ''__proto__''"
  proof -
    from plain have "\<forall>k \<in> fst ` set A \<union> fst ` set C. \<not> is_array_index k \<and> k \<noteq> js ''__proto__''"
      by (simp only: sA sC)
    with dA dC have "map fst out = map fst A @ filter (\<lambda>k. k \<notin> fst ` set A) (map fst C)"
      unfolding out_def by (rule keys_built)
    then show ?thesis by (simp only: kA kC sA)
  qed
  show ?thesis
  proof (intro exI conjI)
    show "normalizeXmlJs p (Obj node) = Obj out" by (rule res)
    show "\<forall>(k, v) \<in> set attrs.
           attr_key p k \<noteq> js ''__proto__'' \<and> attr_key p k \<notin> fst ` set (child_entries node)
           \<longrightarrow> map_of out (attr_key p k) = Some v"
    proof (rule ballI)
      fix x assume x: "x \<in> set attrs"
      obtain k v where e: "x = (k, v)" by (cases x)
      show "case x of (k, v) \<Rightarrow>
           attr_key p k \<noteq> js ''__proto__'' \<and> attr_key p k \<notin> fst ` set (child_entries node)
           \<longrightarrow> map_of out (attr_key p k) = Some v"
        unfolding e using one [OF x [unfolded e]] by simp
    qed
    show "\<forall>(k, c) \<in> set (child_entries node).
           k \<noteq> js ''__proto__'' \<longrightarrow> map_of out k = Some (normalizeXmlJs p c)"
    proof (rule ballI)
      fix x assume x: "x \<in> set (child_entries node)"
      obtain k c where e: "x = (k, c)" by (cases x)
      show "case x of (k, c) \<Rightarrow>
           k \<noteq> js ''__proto__'' \<longrightarrow> map_of out k = Some (normalizeXmlJs p c)"
        unfolding e using two [OF x [unfolded e]] by simp
    qed
    show "(\<forall>k \<in> attr_key p ` fst ` set attrs \<union> fst ` set (child_entries node).
            \<not> is_array_index k \<and> k \<noteq> js ''__proto__'')
          \<longrightarrow> map fst out = map (attr_key p) (map fst attrs)
                @ filter (\<lambda>k. k \<notin> attr_key p ` fst ` set attrs) (map fst (child_entries node))"
      using three by (rule impI)
  qed
qed


theorem attributes_then_children_witness:
  "\<exists>out. normalizeXmlJs False
            (Obj [(js ''_attributes'', Obj [(js ''id'', Str (js ''1'')), (js ''b'', Str (js ''x''))]),
                  (js ''b'', Obj [(js ''_text'', Str (js ''y''))]),
                  (js ''c'', Str (js ''z''))]) = Obj out
        \<and> map_of out (js ''id'') = Some (Str (js ''1''))
        \<and> map_of out (js ''b'') = Some (Str (js ''y''))
        \<and> map_of out (js ''c'') = Some (Str (js ''z''))
        \<and> map fst out = [js ''id'', js ''b'', js ''c'']"
proof -
  define node where "node = [(js ''_attributes'', Obj [(js ''id'', Str (js ''1'')), (js ''b'', Str (js ''x''))]),
                  (js ''b'', Obj [(js ''_text'', Str (js ''y''))]),
                  (js ''c'', Str (js ''z''))]"
  define attrs where "attrs = [(js ''id'', Str (js ''1'')), (js ''b'', Str (js ''x''))]"
  have h1: "map fst node \<noteq> [js ''_text'']" by (simp add: node_def)
  have h2: "attrs = attribute_entries (get_prop node (js ''_attributes''))"
    by (simp add: node_def attrs_def attribute_entries_def get_prop_def)
  have h3: "distinct (map fst node)" by (simp add: node_def js_def)
  have h4: "distinct (map fst attrs)" by (simp add: attrs_def js_def)
  have ce: "child_entries node = [(js ''b'', Obj [(js ''_text'', Str (js ''y''))]), (js ''c'', Str (js ''z''))]"
    by (simp add: node_def child_entries_def skipped_def js_def)
  have plain: "\<not> is_array_index (js ''id'') \<and> \<not> is_array_index (js ''b'') \<and> \<not> is_array_index (js ''c'')"
    by (simp add: is_array_index_def is_digit_def js_def)
  have np: "js ''id'' \<noteq> js ''__proto__'' \<and> js ''b'' \<noteq> js ''__proto__'' \<and> js ''c'' \<noteq> js ''__proto__''
            \<and> js ''c'' \<noteq> js ''id'' \<and> js ''c'' \<noteq> js ''b''
            \<and> js ''id'' \<noteq> js ''b'' \<and> js ''id'' \<noteq> js ''c''"
    by (simp add: js_def)
  have leaf: "normalizeXmlJs False (Obj [(js ''_text'', Str (js ''y''))]) = Str (js ''y'')"
    by simp
  from attributes_then_children [OF h1 h2 h3 h4, of False]
  have "\<exists>out. normalizeXmlJs False (Obj node) = Obj out
        \<and> map_of out (js ''id'') = Some (Str (js ''1''))
        \<and> map_of out (js ''b'') = Some (Str (js ''y''))
        \<and> map_of out (js ''c'') = Some (Str (js ''z''))
        \<and> map fst out = [js ''id'', js ''b'', js ''c'']"
    unfolding ce using plain np
    by (simp add: attrs_def attr_key_def leaf del: normalizeXmlJs.simps(2))
  then show ?thesis by (simp only: node_def)
qed

lemma only_attributes_example:
  "normalizeXmlJs True (Obj [(js ''_attributes'', Obj [(js ''id'', Str (js ''1''))])])
     = Obj [(js ''_id'', Str (js ''1''))]
   \<and> normalizeXmlJs False (Obj [(js ''_attributes'', Obj [(js ''id'', Str (js ''1''))])])
     = Obj [(js ''id'', Str (js ''1''))]"
  by (simp add: merge_attributes_def attribute_entries_def get_prop_def skipped_def
      obj_set_unfold is_array_index_def is_digit_def attr_key_def js_def)

text \<open>
  C3. Every attribute \<open>(k, v)\<close> is to be inserted under the key \<open>_\<close> followed by \<open>k\<close> when
  prefixing is enabled, with its value unchanged. For the attribute \<open>_proto__\<close> that key is
  \<open>__proto__\<close>, and the assignment \<open>out[key] = v\<close> of the source creates no property: the
  tree of \<open><a _proto__="x"/>\<close> normalizes its \<open>a\<close> key to the empty object, and the
  attribute is lost.
\<close>

theorem attribute_lost_under_proto_key:
  "normalizeXmlJs True (Obj [(js ''a'', Obj [(js ''_attributes'', Obj [(js ''_proto__'', Str (js ''x''))])])])
     = Obj [(js ''a'', Obj [])]"
  by (simp add: merge_attributes_def attribute_entries_def get_prop_def skipped_def
      obj_set_unfold is_array_index_def is_digit_def attr_key_def js_def)

section \<open>Mixed content\<close>

text \<open>
  C5. An element that has a text and also attributes or child elements is rebuilt as an
  object, and no key is made for the text: the result is the result for the same element
  without its \<open>_text\<close> property, so the text, whatever it is, is dropped, and every key
  of the result is the output key of an attribute or the key of a child.
\<close>

theorem mixed_content_text_dropped:
  assumes "js ''_text'' \<in> fst ` set node"
    and "js ''_attributes'' \<in> fst ` set node \<or> child_entries node \<noteq> []"
  shows "normalizeXmlJs p (Obj node) = normalizeXmlJs p (Obj (without_text node))
         \<and> (\<exists>out. normalizeXmlJs p (Obj node) = Obj out
               \<and> fst ` set out \<subseteq> attr_key p ` fst ` set (attribute_entries (get_prop node (js ''_attributes'')))
                                 \<union> fst ` set (child_entries node))"
proof -
  have nl: "map fst node \<noteq> [js ''_text'']"
  proof (cases "js ''_attributes'' \<in> fst ` set node")
    case True then show ?thesis
      by (rule other_key_not_leaf) (rule js_text_neq_attributes [symmetric])
  next
    case False
    with assms(2) obtain k v where "(k, v) \<in> set (child_entries node)"
      by (cases "child_entries node") auto
    then have kv: "(k, v) \<in> set node" and ns: "\<not> skipped k" by (auto simp: child_entries_def)
    from kv have "k \<in> fst ` set node" by (rule rev_image_eqI) simp
    moreover from ns have "k \<noteq> js ''_text''" by (simp add: skipped_def)
    ultimately show ?thesis by (rule other_key_not_leaf)
  qed
  have eq: "normalizeXmlJs p (Obj node) = normalizeXmlJs p (Obj (without_text node))"
    using nl keys_without_text [of node]
    by (simp add: normalize_Obj merge_attributes_set_all child_entries_without_text
        get_prop_without_text [OF js_text_neq_attributes [symmetric]] del: normalizeXmlJs.simps)
  define out where "out = set_all (merge_attributes p node)
                  (map (\<lambda>(k, v). (k, normalizeXmlJs p v)) (child_entries node))"
  have out: "normalizeXmlJs p (Obj node) = Obj out"
    using nl by (simp add: out_def normalize_Obj del: normalizeXmlJs.simps)
  have "set out \<subseteq> set (merge_attributes p node)
            \<union> set (map (\<lambda>(k, v). (k, normalizeXmlJs p v)) (child_entries node))"
    unfolding out_def by (rule set_set_all)
  also have "\<dots> \<subseteq> set (map (\<lambda>(k, v). (attr_key p k, v)) (attribute_entries (get_prop node (js ''_attributes''))))
            \<union> set (map (\<lambda>(k, v). (k, normalizeXmlJs p v)) (child_entries node))"
    by (rule Un_mono [OF merge_attributes_subset subset_refl])
  finally have "set out \<subseteq> set (map (\<lambda>(k, v). (attr_key p k, v)) (attribute_entries (get_prop node (js ''_attributes''))))
            \<union> set (map (\<lambda>(k, v). (k, normalizeXmlJs p v)) (child_entries node))" .
  then have keys: "fst ` set out \<subseteq> attr_key p ` fst ` set (attribute_entries (get_prop node (js ''_attributes'')))
                                 \<union> fst ` set (child_entries node)"
    by (rule built_keys)
  show ?thesis
  proof (intro conjI exI)
    show "normalizeXmlJs p (Obj node) = normalizeXmlJs p (Obj (without_text node))" by (rule eq)
    show "normalizeXmlJs p (Obj node) = Obj out" by (rule out)
    show "fst ` set out \<subseteq> attr_key p ` fst ` set (attribute_entries (get_prop node (js ''_attributes'')))
                                 \<union> fst ` set (child_entries node)" by (rule keys)
  qed
qed

theorem mixed_content_text_dropped_witness:
  "normalizeXmlJs True (Obj [(js ''_attributes'', Obj [(js ''id'', Str (js ''1''))]),
                             (js ''_text'', Str (js ''hello''))])
     = normalizeXmlJs True (Obj [(js ''_attributes'', Obj [(js ''id'', Str (js ''1''))])])
   \<and> normalizeXmlJs True (Obj [(js ''_attributes'', Obj [(js ''id'', Str (js ''1''))]),
                             (js ''_text'', Str (js ''hello''))])
     = Obj [(js ''_id'', Str (js ''1''))]"
proof -
  have h1: "js ''_text'' \<in> fst ` set [(js ''_attributes'', Obj [(js ''id'', Str (js ''1''))]),
                                     (js ''_text'', Str (js ''hello''))]"
    by simp
  have h2: "js ''_attributes'' \<in> fst ` set [(js ''_attributes'', Obj [(js ''id'', Str (js ''1''))]),
                                           (js ''_text'', Str (js ''hello''))]
            \<or> child_entries [(js ''_attributes'', Obj [(js ''id'', Str (js ''1''))]),
                              (js ''_text'', Str (js ''hello''))] \<noteq> []"
    by simp
  have "without_text [(js ''_attributes'', Obj [(js ''id'', Str (js ''1''))]), (js ''_text'', Str (js ''hello''))]
          = [(js ''_attributes'', Obj [(js ''id'', Str (js ''1''))])]"
    by (simp add: without_text_def js_text_neq_attributes [symmetric])
  with mixed_content_text_dropped [OF h1 h2, of True]
  have "normalizeXmlJs True (Obj [(js ''_attributes'', Obj [(js ''id'', Str (js ''1''))]),
                                  (js ''_text'', Str (js ''hello''))])
     = normalizeXmlJs True (Obj [(js ''_attributes'', Obj [(js ''id'', Str (js ''1''))])])"
    by (simp only:)
  moreover have "normalizeXmlJs True (Obj [(js ''_attributes'', Obj [(js ''id'', Str (js ''1''))])])
     = Obj [(js ''_id'', Str (js ''1''))]"
    using only_attributes_example by (rule conjunct1)
  ultimately show ?thesis by (simp only: simp_thms)
qed

section \<open>Skipped names in the output\<close>




section \<open>Normalizing twice\<close>




section \<open>Blank input\<close>

lemma trim_blank: "(\<forall>c \<in> set s. is_whitespace c) \<Longrightarrow> trim s = []"
proof -
  assume "\<forall>c \<in> set s. is_whitespace c"
  then have "dropWhile is_whitespace s = []" by (induction s) simp_all
  then show ?thesis by (simp only: trim_def rev.simps dropWhile.simps)
qed


text \<open>
  C6. When the input text is empty or consists of white space only, either conversion
  action leaves the JSON output empty and the error message empty, whatever they were
  before; the parser is not consulted and nothing is thrown.
\<close>

theorem blank_input_gives_empty_output:
  assumes "\<forall>c \<in> set (xml st). is_whitespace c"
  shows "json (onConvert xml2js stringify closed_pretty st) = Str []
       \<and> error (onConvert xml2js stringify closed_pretty st) = Str []
       \<and> json (onConvert_xml2json xml2json st) = Str []
       \<and> error (onConvert_xml2json xml2json st) = Str []"
  using assms by (simp add: onConvert_def onConvert_xml2json_def trim_blank)

theorem blank_input_gives_empty_output_witness:
  "list_all is_whitespace (js '' '')
   \<and> json (onConvert (\<lambda>x. Throws Null) (\<lambda>v n. Null) True
        \<lparr>xml = js '' '', json = Str (js ''old''), error = Str (js ''old''), pretty = True\<rparr>) = Str []
   \<and> error (onConvert (\<lambda>x. Throws Null) (\<lambda>v n. Null) True
        \<lparr>xml = js '' '', json = Str (js ''old''), error = Str (js ''old''), pretty = True\<rparr>) = Str []"
proof -
  have h: "\<forall>c \<in> set (xml \<lparr>xml = js '' '', json = Str (js ''old''), error = Str (js ''old''), pretty = True\<rparr>).
             is_whitespace c"
    by (simp add: js_def is_whitespace_def)
  from blank_input_gives_empty_output [OF h, of "\<lambda>x. Throws Null" "\<lambda>v n. Null" True]
  show ?thesis using h by (simp add: list_all_iff)
qed

section \<open>Parser errors\<close>

text \<open>
  The catch block shows \<open>e?.message || 'Failed to convert XML'\<close>: a thrown value without
  a message, or with an empty one, is shown as the fixed text.
\<close>

lemma fallback_message_shown:
  assumes "trim (xml st) \<noteq> []"
    and "xml2js (xml st) = Throws e"
    and "\<not> truthy (optional_message e)"
  shows "error (onConvert xml2js stringify closed_pretty st) = Str (js ''Failed to convert XML'')"
  using assms by (simp add: onConvert_def caught_def)

text \<open>
  C7. When the input is not blank and the parser throws a value that carries a message
  text, as the errors of the parser do, either conversion action sets one error message,
  that text unchanged, and clears the JSON output, whatever it was before: nothing of a
  partial result and nothing of the prior output is kept.
\<close>

theorem parser_error_shown:
  assumes "trim (xml st) \<noteq> []"
    and "xml2js (xml st) = Throws e"
    and "optional_message e = Str m" and "m \<noteq> []"
    and "xml2json (xml st) (if pretty st then 2 else 0) = Throws e'"
    and "optional_message e' = Str m'" and "m' \<noteq> []"
  shows "json (onConvert xml2js stringify closed_pretty st) = Str []
       \<and> error (onConvert xml2js stringify closed_pretty st) = Str m
       \<and> json (onConvert_xml2json xml2json st) = Str []
       \<and> error (onConvert_xml2json xml2json st) = Str m'"
  using assms by (simp add: onConvert_def onConvert_xml2json_def caught_def)

theorem parser_error_shown_witness:
  "trim (js ''<a><b></a>'') \<noteq> []
   \<and> json (onConvert (\<lambda>x. Throws (Obj [(js ''message'', Str (js ''Unclosed tag''))])) (\<lambda>v n. Null) True
        \<lparr>xml = js ''<a><b></a>'', json = Str (js ''old''), error = Str [], pretty = True\<rparr>) = Str []
   \<and> error (onConvert (\<lambda>x. Throws (Obj [(js ''message'', Str (js ''Unclosed tag''))])) (\<lambda>v n. Null) True
        \<lparr>xml = js ''<a><b></a>'', json = Str (js ''old''), error = Str [], pretty = True\<rparr>)
       = Str (js ''Unclosed tag'')"
proof -
  define st where "st = \<lparr>xml = js ''<a><b></a>'', json = Str (js ''old''), error = Str [], pretty = True\<rparr>"
  define e where "e = Obj [(js ''message'', Str (js ''Unclosed tag''))]"
  have t: "trim (js ''<a><b></a>'') \<noteq> []"
    by (simp add: trim_def is_whitespace_def js_def)
  then have h1: "trim (xml st) \<noteq> []" by (simp add: st_def)
  have h2: "(\<lambda>x. Throws e) (xml st) = Throws e" by simp
  have h3: "(\<lambda>x n. Throws e) (xml st) (if pretty st then 2 else 0) = Throws e" by simp
  have m: "optional_message e = Str (js ''Unclosed tag'')" and n: "js ''Unclosed tag'' \<noteq> []"
    by (simp_all add: e_def js_def)
  from parser_error_shown [OF h1 h2 m n h3 m n, of "\<lambda>v n. Null" True]
  have r: "json (onConvert (\<lambda>x. Throws e) (\<lambda>v n. Null) True st) = Str []
      \<and> error (onConvert (\<lambda>x. Throws e) (\<lambda>v n. Null) True st) = Str (js ''Unclosed tag'')"
    by simp
  show ?thesis
  proof (intro conjI)
    show "trim (js ''<a><b></a>'') \<noteq> []" by (rule t)
    show "json (onConvert (\<lambda>x. Throws (Obj [(js ''message'', Str (js ''Unclosed tag''))])) (\<lambda>v n. Null) True
        \<lparr>xml = js ''<a><b></a>'', json = Str (js ''old''), error = Str [], pretty = True\<rparr>) = Str []"
      using r unfolding st_def e_def by (rule conjunct1)
    show "error (onConvert (\<lambda>x. Throws (Obj [(js ''message'', Str (js ''Unclosed tag''))])) (\<lambda>v n. Null) True
        \<lparr>xml = js ''<a><b></a>'', json = Str (js ''old''), error = Str [], pretty = True\<rparr>)
       = Str (js ''Unclosed tag'')"
      using r unfolding st_def e_def by (rule conjunct2)
  qed
qed

section \<open>Lexing and parsing the text of a value\<close>

subsection \<open>String literals\<close>

lemma cons_token_simps [simp]:
  "cons_token t None = None" "cons_token t (Some ts) = Some (t # ts)"
  by (simp_all add: cons_token_def)

lemma lex_whitespace: "\<forall>c \<in> set w. json_whitespace c \<Longrightarrow> lex (w @ s) = lex s"
  by (induction w) simp_all

lemma lex_punctuation:
  "lex (123 # s) = cons_token LBrace (lex s)"
  "lex (125 # s) = cons_token RBrace (lex s)"
  "lex (91 # s) = cons_token LBracket (lex s)"
  "lex (93 # s) = cons_token RBracket (lex s)"
  "lex (58 # s) = cons_token Colon (lex s)"
  "lex (44 # s) = cons_token Comma (lex s)"
  by (simp_all add: json_whitespace_def)

lemma hex_value_digit: "n < 16 \<Longrightarrow> hex_value (hex_digit n) = Some n"
proof -
  assume n: "n < 16"
  have "list_all (\<lambda>n. hex_value (hex_digit n) = Some n) [0..<16]" by code_simp
  then have "\<forall>n \<in> set [0..<16]. hex_value (hex_digit n) = Some n" by (simp only: list_all_iff)
  moreover from n have "n \<in> set [0..<16]" by simp
  ultimately show ?thesis by (rule bspec)
qed

lemma hex4_unicode_escape:
  "hex4 (hex_digit (unat c div 4096)) (hex_digit (unat c div 256 mod 16))
        (hex_digit (unat c div 16 mod 16)) (hex_digit (unat c mod 16)) = Some (c :: 16 word)"
proof -
  define u where "u = unat c"
  have "unat c < 2 ^ LENGTH(16)" by (rule unsigned_less)
  then have "u < 65536" by (simp add: u_def)
  then have "u div 4096 < 16" by simp
  have a: "u mod 256 = 16 * (u div 16 mod 16) + u mod 16"
    using mod_mult2_eq [of u 16 16] by simp
  have b: "u mod 4096 = 256 * (u div 256 mod 16) + u mod 256"
    using mod_mult2_eq [of u 256 16] by simp
  have "4096 * (u div 4096) + u mod 4096 = u" by simp
  with a b have sum: "4096 * (u div 4096) + 256 * (u div 256 mod 16) + 16 * (u div 16 mod 16) + u mod 16 = u"
    by simp
  have v: "hex_value (hex_digit (u div 4096)) = Some (u div 4096)"
    "hex_value (hex_digit (u div 256 mod 16)) = Some (u div 256 mod 16)"
    "hex_value (hex_digit (u div 16 mod 16)) = Some (u div 16 mod 16)"
    "hex_value (hex_digit (u mod 16)) = Some (u mod 16)"
    using \<open>u div 4096 < 16\<close> by (simp_all add: hex_value_digit)
  have "hex4 (hex_digit (u div 4096)) (hex_digit (u div 256 mod 16))
        (hex_digit (u div 16 mod 16)) (hex_digit (u mod 16)) = Some (of_nat u)"
    unfolding hex4_def v by (simp only: sum prod.case option.case)
  then show ?thesis by (simp add: u_def)
qed


lemma surrogate_plain:
  assumes "is_high_surrogate c \<or> is_low_surrogate c"
  shows "c \<noteq> 34" and "c \<noteq> 92" and "\<not> c < 32"
  using assms
  by (auto simp: is_high_surrogate_def is_low_surrogate_def word_le_nat_alt word_less_nat_alt)

lemma lex_string_plain:
  "c \<noteq> 34 \<Longrightarrow> c \<noteq> 92 \<Longrightarrow> \<not> c < 32
     \<Longrightarrow> lex_string (c # tail) = map_option (\<lambda>(s, rest). (c # s, rest)) (lex_string tail)"
  by simp

lemma lex_string_short_escape:
  "unescape e = Some u \<Longrightarrow> e \<noteq> 117
     \<Longrightarrow> lex_string (92 # e # tail) = map_option (\<lambda>(s, rest). (u # s, rest)) (lex_string tail)"
  by simp

lemma lex_string_unicode_escape:
  "lex_string (unicode_escape c @ tail) = map_option (\<lambda>(s, rest). (c # s, rest)) (lex_string tail)"
  by (simp add: unicode_escape_def hex4_unicode_escape)

lemma lex_string_escape_unit:
  "lex_string (escape_unit c @ tail) = map_option (\<lambda>(s, rest). (c # s, rest)) (lex_string tail)"
proof -
  consider "c = 8" | "c = 9" | "c = 10" | "c = 12" | "c = 13" | "c = 34" | "c = 92"
    | "c \<notin> {8, 9, 10, 12, 13, 34, 92}" "c < 32 \<or> is_high_surrogate c \<or> is_low_surrogate c"
    | "c \<notin> {8, 9, 10, 12, 13, 34, 92}" "\<not> (c < 32 \<or> is_high_surrogate c \<or> is_low_surrogate c)"
    by blast
  then show ?thesis
  proof cases
    case 8
    then have "escape_unit c = unicode_escape c" by (simp add: escape_unit_def)
    then show ?thesis by (simp only: lex_string_unicode_escape)
  next
    case 9
    then have e: "escape_unit c = [c]" by (simp add: escape_unit_def)
    from 9 have "c \<noteq> 34" "c \<noteq> 92" "\<not> c < 32" by simp_all
    then show ?thesis unfolding e append_Cons append_Nil by (rule lex_string_plain)
  qed (simp_all add: escape_unit_def lex_string_short_escape unescape_def)
qed

lemma lex_string_quote_units: "lex_string (quote_units s @ 34 # rest) = Some (s, rest)"
proof (induction s rule: quote_units.induct)
  case 1
  then show ?case by simp
next
  case (2 c)
  then show ?case by (simp add: lex_string_escape_unit)
next
  case (3 c d ds)
  show ?case
  proof (cases "is_high_surrogate c \<and> is_low_surrogate d")
    case True
    then have c: "c \<noteq> 34" "c \<noteq> 92" "\<not> c < 32" and d: "d \<noteq> 34" "d \<noteq> 92" "\<not> d < 32"
      using surrogate_plain [of c] surrogate_plain [of d] by simp_all
    have "lex_string (c # d # quote_units ds @ 34 # rest) = Some (c # d # ds, rest)"
      using "3.IH"(1) [OF True] by (simp only: lex_string_plain [OF c] lex_string_plain [OF d]) simp
    moreover have "quote_units (c # d # ds) = c # d # quote_units ds"
      using True by simp
    ultimately show ?thesis by (simp only: append_Cons)
  next
    case False
    have "lex_string (escape_unit c @ quote_units (d # ds) @ 34 # rest) = Some (c # d # ds, rest)"
      using "3.IH"(2) [OF False] by (simp only: lex_string_escape_unit) simp
    moreover have "quote_units (c # d # ds) = escape_unit c @ quote_units (d # ds)"
      using False by (simp del: de_Morgan_conj)
    ultimately show ?thesis by (simp only: append_assoc)
  qed
qed

lemma lex_quoted: "lex (quote_json_string s @ rest) = cons_token (TString s) (lex rest)"
  by (simp add: quote_json_string_def json_whitespace_def lex_string_quote_units)

subsection \<open>Texts and their tokens\<close>

lemma lexes_to_append: "lexes_to p ts \<Longrightarrow> lexes_to q us \<Longrightarrow> lexes_to (p @ q) (ts @ us)"
  by (simp add: lexes_to_def split: option.splits)

lemma lexes_to_whitespace: "\<forall>c \<in> set w. json_whitespace c \<Longrightarrow> lexes_to w []"
  by (simp add: lexes_to_def lex_whitespace split: option.splits)

lemma lexes_to_punctuation:
  "lexes_to [123] [LBrace]" "lexes_to [125] [RBrace]" "lexes_to [91] [LBracket]"
  "lexes_to [93] [RBracket]" "lexes_to [58] [Colon]" "lexes_to [44] [Comma]"
  by (simp_all add: lexes_to_def lex_punctuation cons_token_def del: lex.simps split: option.splits)

lemma lexes_to_quoted: "lexes_to (quote_json_string s) [TString s]"
  by (simp add: lexes_to_def lex_quoted cons_token_def split: option.splits)

lemma lexes_to_joined:
  "list_all2 lexes_to parts tss \<Longrightarrow> parts \<noteq> [] \<Longrightarrow> lexes_to sep [Comma]
     \<Longrightarrow> lexes_to closer [closing]
     \<Longrightarrow> lexes_to (join sep parts @ closer) (separated tss closing)"
proof (induction sep parts arbitrary: tss rule: join.induct)
  case (1 sep)
  then show ?case by simp
next
  case (2 sep p)
  then obtain ts where "tss = [ts]" "lexes_to p ts" by (auto simp: list_all2_Cons1)
  then show ?case using "2.prems"(4) by (simp add: lexes_to_append)
next
  case (3 sep p q ps)
  then obtain ts us uss where tss: "tss = ts # us # uss" and p: "lexes_to p ts"
    and rest: "list_all2 lexes_to (q # ps) (us # uss)"
    by (auto simp: list_all2_Cons1)
  from rest "3.prems"(3,4) have "lexes_to (join sep (q # ps) @ closer) (separated (us # uss) closing)"
    by (intro "3.IH") simp_all
  with p "3.prems"(3)
  have "lexes_to (p @ sep @ join sep (q # ps) @ closer) (ts @ [Comma] @ separated (us # uss) closing)"
    by (intro lexes_to_append)
  then show ?case by (simp add: tss)
qed


lemma lexes_to_wrap:
  assumes gap: "\<forall>c \<in> set gap. json_whitespace c"
    and indent: "\<forall>c \<in> set indent. json_whitespace c"
    and parts: "list_all2 lexes_to parts tss"
    and op: "lexes_to [opening] [open_t]"
    and cl: "lexes_to [closing] [close_t]"
  shows "lexes_to (wrap opening closing gap indent parts) (open_t # separated tss close_t)"
proof (cases "parts = []")
  case True
  with parts have "tss = []" by simp
  moreover from op cl have "lexes_to ([opening] @ [closing]) ([open_t] @ [close_t])"
    by (rule lexes_to_append)
  ultimately show ?thesis using True by (simp add: wrap_def)
next
  case False
  show ?thesis
  proof (cases "gap = []")
    case True
    have "lexes_to (join [44] parts @ [closing]) (separated tss close_t)"
      using parts False lexes_to_punctuation(6) cl by (rule lexes_to_joined)
    with op have "lexes_to ([opening] @ join [44] parts @ [closing]) ([open_t] @ separated tss close_t)"
      by (rule lexes_to_append)
    with True False show ?thesis by (simp add: wrap_def)
  next
    case nonempty: False
    define w where "w = 10 # indent @ gap"
    have w: "lexes_to w []"
      unfolding w_def using gap indent by (intro lexes_to_whitespace) (auto simp: json_whitespace_def)
    have "lexes_to (10 # indent) []"
      using indent by (intro lexes_to_whitespace) (auto simp: json_whitespace_def)
    from this cl have closer: "lexes_to ((10 # indent) @ [closing]) ([] @ [close_t])"
      by (rule lexes_to_append)
    from lexes_to_punctuation(6) w have sep: "lexes_to ([44] @ w) ([Comma] @ [])"
      by (rule lexes_to_append)
    have "lexes_to (join ([44] @ w) parts @ (10 # indent) @ [closing]) (separated tss close_t)"
      using parts False sep closer by (intro lexes_to_joined) simp_all
    with w have "lexes_to (w @ join ([44] @ w) parts @ (10 # indent) @ [closing]) ([] @ separated tss close_t)"
      by (rule lexes_to_append)
    with op
    have "lexes_to ([opening] @ w @ join ([44] @ w) parts @ (10 # indent) @ [closing])
            ([open_t] @ [] @ separated tss close_t)"
      by (rule lexes_to_append)
    with nonempty False show ?thesis by (simp add: wrap_def w_def)
  qed
qed

lemma lex_serialize:
  "\<forall>c \<in> set gap. json_whitespace c \<Longrightarrow> normalized_value v
     \<Longrightarrow> \<forall>c \<in> set indent. json_whitespace c
     \<Longrightarrow> \<exists>t. serialize gap indent v = Some t \<and> lexes_to t (tokens_of v)"
proof (induction gap indent v rule: serialize.induct)
  case (5 gap indent s)
  then show ?case by (simp add: lexes_to_quoted)
next
  case (6 gap indent xs)
  define part where "part = (\<lambda>x. case serialize gap (indent @ gap) x of None \<Rightarrow> js ''null'' | Some t \<Rightarrow> t)"
  from "6.prems" have inner: "\<forall>c \<in> set (indent @ gap). json_whitespace c" by auto
  have "lexes_to (part x) (tokens_of x)" if x: "x \<in> set xs" for x
  proof -
    from "6.prems"(2) x have "normalized_value x" by simp
    with "6.IH" [OF x "6.prems"(1) _ inner]
    obtain t where "serialize gap (indent @ gap) x = Some t" "lexes_to t (tokens_of x)" by blast
    then show ?thesis by (simp add: part_def)
  qed
  then have "list_all2 lexes_to (map part xs) (map tokens_of xs)"
    by (simp add: list_all2_map1 list_all2_map2 list_all2_same)
  with "6.prems"(1,3)
  have "lexes_to (wrap 91 93 gap indent (map part xs)) (LBracket # separated (map tokens_of xs) RBracket)"
    using lexes_to_punctuation(3,4) by (rule lexes_to_wrap)
  then show ?case by (simp add: part_def)
next
  case (7 gap indent kvs)
  define colon where "colon = 58 # (if gap = [] then [] else [32::16 word])"
  define part where "part = (\<lambda>(k, v). case serialize gap (indent @ gap) v of
                        None \<Rightarrow> []
                      | Some t \<Rightarrow> [quote_json_string k @ 58 # (if gap = [] then [] else [32]) @ t])"
  define member_text where "member_text = (\<lambda>(k, v). quote_json_string k @ 58 # (if gap = [] then [] else [32])
                                            @ the (serialize gap (indent @ gap) v))"
  from "7.prems" have inner: "\<forall>c \<in> set (indent @ gap). json_whitespace c" by auto
  have colon: "lexes_to colon [Colon]"
  proof -
    have "lexes_to (if gap = [] then [] else [32::16 word]) []"
      by (intro lexes_to_whitespace) (simp add: json_whitespace_def)
    with lexes_to_punctuation(5)
    have "lexes_to ([58] @ (if gap = [] then [] else [32::16 word])) ([Colon] @ [])"
      by (rule lexes_to_append)
    then show ?thesis by (simp add: colon_def)
  qed
  have each: "part e = [member_text e] \<and> lexes_to (member_text e) (case e of (k, v) \<Rightarrow> TString k # Colon # tokens_of v)"
    if e: "e \<in> set kvs" for e
  proof -
    obtain k v where kv: "e = (k, v)" by (cases e)
    from "7.prems"(2) e kv have "normalized_value v" by auto
    with "7.IH" [OF e kv [symmetric] "7.prems"(1) _ inner]
    obtain t where t: "serialize gap (indent @ gap) v = Some t" "lexes_to t (tokens_of v)" by blast
    from colon t(2) have "lexes_to (colon @ t) ([Colon] @ tokens_of v)" by (rule lexes_to_append)
    with lexes_to_quoted [of k]
    have "lexes_to (quote_json_string k @ colon @ t) ([TString k] @ [Colon] @ tokens_of v)"
      by (rule lexes_to_append)
    then have "lexes_to (quote_json_string k @ 58 # (if gap = [] then [] else [32]) @ t)
                 (TString k # Colon # tokens_of v)"
      by (simp add: colon_def)
    with t(1) show ?thesis by (simp add: kv part_def member_text_def)
  qed
  have "concat (map part kvs) = map member_text kvs"
    using each by (induction kvs) simp_all
  moreover have "list_all2 lexes_to (map member_text kvs) (map (\<lambda>(k, v). TString k # Colon # tokens_of v) kvs)"
    using each by (simp add: list_all2_map1 list_all2_map2 list_all2_same)
  with "7.prems"(1,3)
  have "lexes_to (wrap 123 125 gap indent (map member_text kvs))
          (LBrace # separated (map (\<lambda>(k, v). TString k # Colon # tokens_of v) kvs) RBrace)"
    using lexes_to_punctuation(1,2) by (rule lexes_to_wrap)
  ultimately have "lexes_to (wrap 123 125 gap indent (concat (map part kvs)))
          (LBrace # separated (map (\<lambda>(k, v). TString k # Colon # tokens_of v) kvs) RBrace)"
    by (simp only:)
  moreover have "serialize gap indent (Obj kvs) = Some (wrap 123 125 gap indent (concat (map part kvs)))"
    unfolding part_def by simp
  ultimately show ?case by simp
qed simp_all

subsection \<open>Parsing the tokens of a value\<close>

lemma tokens_of_first:
  assumes "normalized_value v"
  shows "\<exists>t ts. tokens_of v = t # ts \<and> t \<noteq> RBracket \<and> t \<noteq> RBrace"
  using assms by (cases v) simp_all

lemma separated_first:
  assumes "tss \<noteq> []" and "hd tss = t # ts"
  shows "\<exists>us. separated tss closing = t # us"
  using assms by (induction tss closing rule: separated.induct) simp_all

lemma parse_value_array:
  assumes "t \<noteq> RBracket"
  shows "parse_value (Suc n) (LBracket # t # ts)
           = map_option (\<lambda>(xs, rest). (Arr xs, rest)) (parse_elements n (t # ts))"
  using assms by (cases t) simp_all

lemma parse_value_object:
  assumes "t \<noteq> RBrace"
  shows "parse_value (Suc n) (LBrace # t # ts)
           = map_option (\<lambda>(kvs, rest). (Obj (create_all kvs), rest)) (parse_members n (t # ts))"
  using assms by (cases t) simp_all

lemma parse_elements_step:
  assumes "parse_value n ts = Some (x, t # ts')"
  shows "parse_elements (Suc n) ts =
           (if t = Comma then map_option (\<lambda>(xs, rest). (x # xs, rest)) (parse_elements n ts')
            else if t = RBracket then Some ([x], ts') else None)"
  using assms by (cases t) simp_all

lemma parse_members_step:
  assumes "parse_value n ts = Some (v, t # ts')"
  shows "parse_members (Suc n) (TString k # Colon # ts) =
           (if t = Comma then map_option (\<lambda>(kvs, rest). ((k, v) # kvs, rest)) (parse_members n ts')
            else if t = RBrace then Some ([(k, v)], ts') else None)"
  using assms by (cases t) simp_all

lemma parse_elements_separated:
  assumes "\<forall>x \<in> set xs. \<forall>k rest. parse_value (fuel_for x + k) (tokens_of x @ rest) = Some (reparsed x, rest)"
    and "xs \<noteq> []"
  shows "parse_elements (sum_list (map (\<lambda>x. Suc (fuel_for x)) xs) + k)
           (separated (map tokens_of xs) RBracket @ rest) = Some (map reparsed xs, rest)"
  using assms
proof (induction xs arbitrary: k rule: induct_list012)
  case 1
  then show ?case by simp
next
  case (2 x)
  then have "parse_value (fuel_for x + k) (tokens_of x @ RBracket # rest) = Some (reparsed x, RBracket # rest)"
    by simp
  then have "parse_elements (Suc (fuel_for x + k)) (tokens_of x @ RBracket # rest) = Some ([reparsed x], rest)"
    by (simp add: parse_elements_step del: parse_elements.simps)
  then show ?case by (simp del: parse_elements.simps)
next
  case (3 x y zs)
  define F where "F = sum_list (map (\<lambda>x. Suc (fuel_for x)) (y # zs))"
  define tail where "tail = separated (map tokens_of (y # zs)) RBracket @ rest"
  from "3.prems" have "parse_value (fuel_for x + (F + k)) (tokens_of x @ Comma # tail) = Some (reparsed x, Comma # tail)"
    by simp
  then have "parse_elements (Suc (fuel_for x + (F + k))) (tokens_of x @ Comma # tail)
      = map_option (\<lambda>(xs, rest). (reparsed x # xs, rest)) (parse_elements (fuel_for x + (F + k)) tail)"
    by (simp add: parse_elements_step del: parse_elements.simps)
  moreover have "parse_elements (F + (fuel_for x + k)) tail = Some (map reparsed (y # zs), rest)"
    unfolding F_def tail_def using "3.prems" by (intro "3.IH"(2)) simp_all
  then have "parse_elements (fuel_for x + (F + k)) tail = Some (map reparsed (y # zs), rest)"
    by (simp add: add.left_commute)
  ultimately have fin: "parse_elements (Suc (fuel_for x + (F + k))) (tokens_of x @ Comma # tail)
      = Some (map reparsed (x # y # zs), rest)"
    by simp
  have fuel_eq: "sum_list (map (\<lambda>x. Suc (fuel_for x)) (x # y # zs)) + k = Suc (fuel_for x + (F + k))"
    by (simp add: F_def)
  have toks_eq: "separated (map tokens_of (x # y # zs)) RBracket @ rest = tokens_of x @ Comma # tail"
    by (simp add: tail_def)
  show ?case unfolding fuel_eq toks_eq by (rule fin)
qed


lemma parse_members_separated:
  assumes "\<forall>(q, v) \<in> set kvs. \<forall>k rest. parse_value (fuel_for v + k) (tokens_of v @ rest) = Some (reparsed v, rest)"
    and "kvs \<noteq> []"
  shows "parse_members (sum_list (map (\<lambda>(q, v). Suc (fuel_for v)) kvs) + k)
           (separated (map (\<lambda>(q, v). TString q # Colon # tokens_of v) kvs) RBrace @ rest)
         = Some (map (\<lambda>(q, v). (q, reparsed v)) kvs, rest)"
  using assms
proof (induction kvs arbitrary: k rule: induct_list012)
  case 1
  then show ?case by simp
next
  case (2 e)
  obtain q v where e: "e = (q, v)" by (cases e)
  from 2 have "parse_value (fuel_for v + k) (tokens_of v @ RBrace # rest) = Some (reparsed v, RBrace # rest)"
    by (simp add: e)
  then have "parse_members (Suc (fuel_for v + k)) (TString q # Colon # tokens_of v @ RBrace # rest)
      = Some ([(q, reparsed v)], rest)"
    by (simp add: parse_members_step del: parse_members.simps)
  then show ?case by (simp add: e del: parse_members.simps)
next
  case (3 e y zs)
  obtain q v where e: "e = (q, v)" by (cases e)
  define F where "F = sum_list (map (\<lambda>(q, v). Suc (fuel_for v)) (y # zs))"
  define tail where "tail = separated (map (\<lambda>(q, v). TString q # Colon # tokens_of v) (y # zs)) RBrace @ rest"
  from "3.prems" have "parse_value (fuel_for v + (F + k)) (tokens_of v @ Comma # tail) = Some (reparsed v, Comma # tail)"
    by (simp add: e)
  then have "parse_members (Suc (fuel_for v + (F + k))) (TString q # Colon # tokens_of v @ Comma # tail)
      = map_option (\<lambda>(kvs, rest). ((q, reparsed v) # kvs, rest)) (parse_members (fuel_for v + (F + k)) tail)"
    by (simp add: parse_members_step del: parse_members.simps)
  moreover have "parse_members (F + (fuel_for v + k)) tail = Some (map (\<lambda>(q, v). (q, reparsed v)) (y # zs), rest)"
    unfolding F_def tail_def using "3.prems" by (intro "3.IH"(2)) simp_all
  then have "parse_members (fuel_for v + (F + k)) tail = Some (map (\<lambda>(q, v). (q, reparsed v)) (y # zs), rest)"
    by (simp add: add.left_commute)
  ultimately have fin: "parse_members (Suc (fuel_for v + (F + k))) (TString q # Colon # tokens_of v @ Comma # tail)
      = Some (map (\<lambda>(q, v). (q, reparsed v)) (e # y # zs), rest)"
    by (simp add: e)
  have fuel_eq: "sum_list (map (\<lambda>(q, v). Suc (fuel_for v)) (e # y # zs)) + k = Suc (fuel_for v + (F + k))"
    by (simp add: F_def e)
  have toks_eq: "separated (map (\<lambda>(q, v). TString q # Colon # tokens_of v) (e # y # zs)) RBrace @ rest
      = TString q # Colon # tokens_of v @ Comma # tail"
    by (simp add: tail_def e)
  show ?case unfolding fuel_eq toks_eq by (rule fin)
qed

lemma parse_tokens_of:
  "normalized_value v \<Longrightarrow> parse_value (fuel_for v + k) (tokens_of v @ rest) = Some (reparsed v, rest)"
proof (induction v arbitrary: k rest rule: fuel_for.induct)
  case (1 xs)
  show ?case
  proof (cases "xs = []")
    case True
    then show ?thesis by simp
  next
    case False
    define F where "F = sum_list (map (\<lambda>x. Suc (fuel_for x)) xs)"
    have each: "\<forall>x \<in> set xs. \<forall>k rest. parse_value (fuel_for x + k) (tokens_of x @ rest) = Some (reparsed x, rest)"
      using 1 by simp
    from False obtain x ys where xs: "xs = x # ys" by (cases xs) auto
    with "1.prems" have "normalized_value x" by simp
    then obtain t ts where "tokens_of x = t # ts" "t \<noteq> RBracket" using tokens_of_first by blast
    moreover from this False have "hd (map tokens_of xs) = t # ts" by (simp add: xs)
    with False obtain us where us: "separated (map tokens_of xs) RBracket = t # us"
      using separated_first [of "map tokens_of xs" t ts RBracket] by auto
    ultimately have "parse_value (Suc (F + k)) (LBracket # separated (map tokens_of xs) RBracket @ rest)
        = map_option (\<lambda>(xs, rest). (Arr xs, rest))
            (parse_elements (F + k) (separated (map tokens_of xs) RBracket @ rest))"
      by (simp add: parse_value_array del: parse_value.simps)
    also have "parse_elements (F + k) (separated (map tokens_of xs) RBracket @ rest) = Some (map reparsed xs, rest)"
      unfolding F_def using each False by (rule parse_elements_separated)
    finally show ?thesis by (simp add: F_def del: parse_value.simps)
  qed
next
  case (2 kvs)
  show ?case
  proof (cases "kvs = []")
    case True
    then show ?thesis by (simp add: create_all_def)
  next
    case False
    define F where "F = sum_list (map (\<lambda>(q, v). Suc (fuel_for v)) kvs)"
    define member where "member = (\<lambda>(q, v). TString q # Colon # tokens_of v)"
    have each: "\<forall>(q, v) \<in> set kvs. \<forall>k rest. parse_value (fuel_for v + k) (tokens_of v @ rest) = Some (reparsed v, rest)"
      using 2 by auto
    from False obtain e es where kvs: "kvs = e # es" by (cases kvs) auto
    obtain q v where e: "e = (q, v)" by (cases e)
    have "hd (map member kvs) = TString q # Colon # tokens_of v" by (simp add: kvs e member_def)
    with False obtain us where us: "separated (map member kvs) RBrace = TString q # us"
      using separated_first [of "map member kvs" "TString q" "Colon # tokens_of v" RBrace] by auto
    then have "parse_value (Suc (F + k)) (LBrace # separated (map member kvs) RBrace @ rest)
        = map_option (\<lambda>(kvs, rest). (Obj (create_all kvs), rest))
            (parse_members (F + k) (separated (map member kvs) RBrace @ rest))"
      by (simp add: parse_value_object del: parse_value.simps)
    also have "parse_members (F + k) (separated (map member kvs) RBrace @ rest)
        = Some (map (\<lambda>(q, v). (q, reparsed v)) kvs, rest)"
      unfolding F_def member_def using each False by (rule parse_members_separated)
    finally show ?thesis by (simp add: F_def member_def del: parse_value.simps)
  qed
qed simp_all

lemma length_separated:
  "length (separated tss closing) = (if tss = [] then 1 else sum_list (map (\<lambda>ts. Suc (length ts)) tss))"
  by (induction tss closing rule: separated.induct) simp_all

lemma fuel_for_bound: "normalized_value v \<Longrightarrow> fuel_for v \<le> length (tokens_of v)"
proof (induction v rule: fuel_for.induct)
  case (1 xs)
  then have "sum_list (map (\<lambda>x. Suc (fuel_for x)) xs) \<le> sum_list (map (\<lambda>x. Suc (length (tokens_of x))) xs)"
    by (intro sum_list_mono) simp
  then show ?case by (simp add: length_separated comp_def)
next
  case (2 kvs)
  then have "sum_list (map (\<lambda>(q, v). Suc (fuel_for v)) kvs)
      \<le> sum_list (map (\<lambda>(q, v). Suc (length (TString q # Colon # tokens_of v))) kvs)"
    by (intro sum_list_mono) fastforce
  then show ?case by (simp add: length_separated comp_def case_prod_unfold)
qed simp_all

lemma parse_lexed:
  assumes "normalized_value v" and "lexes_to t (tokens_of v)"
  shows "JSON_parse t = Some (reparsed v)"
proof -
  from assms(2) have "lex (t @ []) = Some (tokens_of v @ [])" by (simp add: lexes_to_def del: append_Nil2)
  then have l: "lex t = Some (tokens_of v)" by simp
  from assms(1) have "fuel_for v \<le> length (tokens_of v)" by (rule fuel_for_bound)
  then obtain k where k: "length (tokens_of v) = fuel_for v + k" using le_Suc_ex by blast
  from assms(1) have "parse_value (fuel_for v + k) (tokens_of v @ []) = Some (reparsed v, [])"
    by (rule parse_tokens_of)
  with k have "parse_value (length (tokens_of v)) (tokens_of v) = Some (reparsed v, [])" by simp
  with l show ?thesis by (simp add: JSON_parse_def)
qed


section \<open>Indentation\<close>

text \<open>
  C8. For every value of the output type (strings, arrays, objects), the compact text
  (\<open>space = 0\<close>) and the indented text (\<open>space = 2\<close>) both exist and both parse, and they
  parse to the same value: indentation changes no token of the text.
\<close>

theorem indentation_is_cosmetic:
  assumes "normalized_value v"
  shows "\<exists>compact pretty. JSON_stringify v 0 = Some compact \<and> JSON_stringify v 2 = Some pretty
           \<and> JSON_parse compact = Some (reparsed v) \<and> JSON_parse pretty = Some (reparsed v)"
proof -
  have "\<exists>t. JSON_stringify v n = Some t \<and> JSON_parse t = Some (reparsed v)" for n
  proof -
    have "\<forall>c \<in> set (replicate (min n 10) (32 :: 16 word)). json_whitespace c"
      by (simp add: json_whitespace_def)
    moreover have "\<forall>c \<in> set ([] :: jsstring). json_whitespace c" by simp
    ultimately obtain t where t: "serialize (replicate (min n 10) 32) [] v = Some t" "lexes_to t (tokens_of v)"
      using lex_serialize [OF _ assms, of "replicate (min n 10) 32" "[]"] by blast
    from assms t(2) have "JSON_parse t = Some (reparsed v)" by (rule parse_lexed)
    with t(1) show ?thesis by (simp add: JSON_stringify_def)
  qed
  from this [of 0] this [of 2] show ?thesis by blast
qed

theorem indentation_is_cosmetic_witness:
  "normalized_value (Obj [(js ''a'', Arr [Str (js ''1''), Str (js ''2'')]), (js ''b'', Obj [])])
   \<and> (\<exists>compact pretty.
         JSON_stringify (Obj [(js ''a'', Arr [Str (js ''1''), Str (js ''2'')]), (js ''b'', Obj [])]) 0 = Some compact
       \<and> JSON_stringify (Obj [(js ''a'', Arr [Str (js ''1''), Str (js ''2'')]), (js ''b'', Obj [])]) 2 = Some pretty
       \<and> JSON_parse compact = JSON_parse pretty)"
proof -
  have n: "normalized_value (Obj [(js ''a'', Arr [Str (js ''1''), Str (js ''2'')]), (js ''b'', Obj [])])"
    by simp
  from indentation_is_cosmetic [OF n] obtain compact pretty where
    "JSON_stringify (Obj [(js ''a'', Arr [Str (js ''1''), Str (js ''2'')]), (js ''b'', Obj [])]) 0 = Some compact"
    "JSON_stringify (Obj [(js ''a'', Arr [Str (js ''1''), Str (js ''2'')]), (js ''b'', Obj [])]) 2 = Some pretty"
    "JSON_parse compact = JSON_parse pretty"
    by auto
  with n show ?thesis by (intro conjI exI)
qed

section \<open>Values that are neither arrays nor objects\<close>

text \<open>
  C10. A value that fails both tests of the source, \<open>Array.isArray(node)\<close> and
  \<open>node && typeof node === 'object'\<close>, is returned unchanged: strings, numbers, booleans,
  \<open>null\<close> and \<open>undefined\<close> pass through, and no error is raised.
\<close>

theorem scalars_pass_through:
  assumes "\<not> array_isArray node"
    and "\<not> (truthy node \<and> typeof node = ''object'')"
  shows "normalizeXmlJs p node = node"
  using assms by (cases node) simp_all

theorem scalars_pass_through_witness:
  "\<not> array_isArray Null \<and> \<not> (truthy Null \<and> typeof Null = ''object'')
   \<and> normalizeXmlJs True Undefined = Undefined
   \<and> normalizeXmlJs True Null = Null
   \<and> normalizeXmlJs True (Bool False) = Bool False
   \<and> normalizeXmlJs True (Num 7) = Num 7
   \<and> normalizeXmlJs True (Str (js ''hello'')) = Str (js ''hello'')"
  using scalars_pass_through [of Undefined True] scalars_pass_through [of Null True]
    scalars_pass_through [of "Bool False" True] scalars_pass_through [of "Num 7" True]
    scalars_pass_through [of "Str (js ''hello'')" True]
  by simp

end
